theory Spec2Isabelle
  imports Complex_Main "HOL-Library.Log_Nat" "HOL-Library.Sublist" "HOL-Library.Multiset"
begin

section \<open>JavaScript numbers\<close>

text \<open>
  The dashboard (\<^verbatim>\<open>src/App.jsx\<close>) computes with JavaScript numbers, which are IEEE 754
  binary64 values. A number is modelled as \<open>NaN\<close>, one of the two infinities, or a finite
  value given by the rational it denotes. Every arithmetic operation rounds its exact
  result to the nearest binary64 value, ties to even (\<open>fl\<close>), with gradual underflow and
  overflow to an infinity when the rounded magnitude reaches \<open>2\<^sup>1\<^sup>0\<^sup>2\<^sup>4\<close>. The model has a single zero: the sign of a zero is observable
  in the source only through \<^verbatim>\<open>toLocaleString\<close>, where it is passed explicitly.
\<close>

datatype number = NaN | PInf | NInf | Fin rat

definition ilog2 :: "rat \<Rightarrow> int" where
  \<comment> \<open>the binary exponent \<open>\<lfloor>log\<^sub>2 x\<rfloor>\<close> of a positive rational\<close>
  "ilog2 x = (if 1 \<le> x then bitlen \<lfloor>x\<rfloor> - 1 else - bitlen (\<lceil>1 / x\<rceil> - 1))"

definition rne :: "rat \<Rightarrow> int" where
  \<comment> \<open>round to the nearest integer, ties to the even one\<close>
  "rne y = (let r = \<lfloor>y\<rfloor>; d = y - of_int r in
     if d < 1 / 2 then r else if 1 / 2 < d then r + 1 else if even r then r else r + 1)"

definition quantum :: "rat \<Rightarrow> rat" where
  \<comment> \<open>the spacing of binary64 values around \<open>x\<close>: 53 significant bits, least exponent \<open>-1074\<close>\<close>
  "quantum x = 2 powi (max (ilog2 \<bar>x\<bar> - 52) (- 1074))"

definition rounded :: "rat \<Rightarrow> rat" where
  \<comment> \<open>the multiple of the spacing nearest to \<open>x\<close>\<close>
  "rounded x = of_int (rne (x / quantum x)) * quantum x"

definition overflow :: "rat \<Rightarrow> number" where
  \<comment> \<open>a magnitude of \<open>2\<^sup>1\<^sup>0\<^sup>2\<^sup>4\<close> or more (binary exponent from 1024 on) is infinite\<close>
  "overflow y = (if 1024 \<le> ilog2 \<bar>y\<bar> then (if 0 < y then PInf else NInf) else Fin y)"

definition fl :: "rat \<Rightarrow> number" where
  "fl x = (if x = 0 then Fin 0 else overflow (rounded x))"

definition is_double :: "rat \<Rightarrow> bool" where
  \<comment> \<open>the rationals that are binary64 values\<close>
  "is_double x \<longleftrightarrow> fl x = Fin x"

fun num_add :: "number \<Rightarrow> number \<Rightarrow> number" where
  "num_add (Fin x) (Fin y) = fl (x + y)"
| "num_add NaN b = NaN"
| "num_add a NaN = NaN"
| "num_add PInf NInf = NaN"
| "num_add NInf PInf = NaN"
| "num_add PInf b = PInf"
| "num_add NInf b = NInf"
| "num_add (Fin x) b = b"

fun num_neg :: "number \<Rightarrow> number" where
  "num_neg NaN = NaN"
| "num_neg PInf = NInf"
| "num_neg NInf = PInf"
| "num_neg (Fin x) = Fin (- x)"

definition num_sub :: "number \<Rightarrow> number \<Rightarrow> number" where
  "num_sub a b = num_add a (num_neg b)"

fun num_le :: "number \<Rightarrow> number \<Rightarrow> bool" where
  "num_le (Fin x) (Fin y) = (x \<le> y)"
| "num_le NaN b = False"
| "num_le a NaN = False"
| "num_le NInf b = True"
| "num_le a PInf = True"
| "num_le a b = False"

fun num_less :: "number \<Rightarrow> number \<Rightarrow> bool" where
  "num_less (Fin x) (Fin y) = (x < y)"
| "num_less NaN b = False"
| "num_less a NaN = False"
| "num_less PInf b = False"
| "num_less a NInf = False"
| "num_less a b = True"

definition truthy :: "number \<Rightarrow> bool" where
  \<comment> \<open>the numbers that are not falsy: all but \<open>NaN\<close> and zero\<close>
  "truthy a \<longleftrightarrow> a \<noteq> NaN \<and> a \<noteq> Fin 0"

definition or_num :: "number option \<Rightarrow> number \<Rightarrow> number" where
  \<comment> \<open>\<^verbatim>\<open>v || d\<close> for a possibly missing (\<^verbatim>\<open>undefined\<close>, \<^verbatim>\<open>null\<close>) number \<open>v\<close>\<close>
  "or_num v d = (case v of None \<Rightarrow> d | Some a \<Rightarrow> if truthy a then a else d)"

section \<open>JavaScript strings\<close>

text \<open>
  A string is the list of its UTF-16 code units, for strings of code units below 256
  (Latin-1, which covers the county names, identifiers and run labels of the API); a
  \<open>char\<close> is one code unit. On these strings \<^verbatim>\<open>trim\<close> removes the white space and
  line terminators of ECMAScript from both ends, \<^verbatim>\<open>toLowerCase\<close> is the Unicode lower
  case mapping, and \<^verbatim>\<open>includes\<close> is the search for a contiguous occurrence.
\<close>

definition is_ws :: "char \<Rightarrow> bool" where
  "is_ws c \<longleftrightarrow> (of_char c :: nat) \<in> {9, 10, 11, 12, 13, 32, 160}"

definition trim :: "string \<Rightarrow> string" where
  "trim s = rev (dropWhile is_ws (rev (dropWhile is_ws s)))"

definition lower_char :: "char \<Rightarrow> char" where
  "lower_char c = (let n = of_char c :: nat in
     if (65 \<le> n \<and> n \<le> 90) \<or> (192 \<le> n \<and> n \<le> 222 \<and> n \<noteq> 215) then char_of (n + 32) else c)"

definition toLowerCase :: "string \<Rightarrow> string" where
  "toLowerCase s = map lower_char s"

fun includes_str :: "string \<Rightarrow> string \<Rightarrow> bool" where
  "includes_str [] t = (t = [])"
| "includes_str (c # cs) t = (prefix t (c # cs) \<or> includes_str cs t)"

section \<open>The county time series\<close>

text \<open>
  A raw point of the series of \<^verbatim>\<open>GET /loss/county\<close> has a timestamp and a step
  value; \<open>None\<close> is a step value that is missing. \<^verbatim>\<open>loadCounty\<close> maps the raw series
  to points that carry the running sum \<^verbatim>\<open>cum\<close>, which starts at zero in every call.
\<close>

record raw_point =
  raw_dt :: string
  raw_el_total :: "number option"

datatype date = Date string

record series_point =
  dt :: date
  el_total :: number
  cum :: number

definition step_of :: "raw_point \<Rightarrow> number" where
  \<comment> \<open>\<^verbatim>\<open>Number(s.el_total) || 0\<close>\<close>
  "step_of s = or_num (raw_el_total s) (Fin 0)"

primrec cumulate :: "number \<Rightarrow> raw_point list \<Rightarrow> series_point list" where
  "cumulate c [] = []"
| "cumulate c (s # ss) =
     (let step = step_of s; c' = num_add c step
      in \<lparr>dt = Date (raw_dt s), el_total = step, cum = c'\<rparr> # cumulate c' ss)"

definition derive_series :: "raw_point list option \<Rightarrow> series_point list" where
  \<comment> \<open>\<^verbatim>\<open>let cum = 0; (r.data.series || []).map(...)\<close>\<close>
  "derive_series raw = cumulate (Fin 0) (case raw of None \<Rightarrow> [] | Some ps \<Rightarrow> ps)"

definition raw_of_steps :: "rat list \<Rightarrow> raw_point list" where
  "raw_of_steps xs = map (\<lambda>x. \<lparr>raw_dt = [], raw_el_total = Some (Fin x)\<rparr>) xs"

section \<open>The county list and its derived views\<close>

text \<open>
  The response of \<^verbatim>\<open>GET /loss/counties\<close>; \<open>None\<close> is a field that is missing or
  \<^verbatim>\<open>null\<close>. \<^verbatim>\<open>Array.prototype.sort\<close> is stable and reads the sign of the comparator's
  result only (a result of \<open>NaN\<close> counts as zero); it is modelled by the stable insertion
  sort \<open>sort_cmp\<close>, which moves an element behind another one exactly when the
  comparator is positive on them.
\<close>

record county =
  fips :: string
  name :: "string option"
  el_total_sum :: "number option"

record counties_response =
  run :: "string option"
  counties :: "county list option"

fun insort_cmp :: "('a \<Rightarrow> 'a \<Rightarrow> number) \<Rightarrow> 'a \<Rightarrow> 'a list \<Rightarrow> 'a list" where
  "insort_cmp f x [] = [x]"
| "insort_cmp f x (y # ys) =
     (if num_less (Fin 0) (f x y) then y # insort_cmp f x ys else x # y # ys)"

definition sort_cmp :: "('a \<Rightarrow> 'a \<Rightarrow> number) \<Rightarrow> 'a list \<Rightarrow> 'a list" where
  "sort_cmp f xs = foldr (insort_cmp f) xs []"

definition loss :: "county \<Rightarrow> number" where
  "loss c = or_num (el_total_sum c) (Fin 0)"

definition by_loss :: "county \<Rightarrow> county \<Rightarrow> number" where
  "by_loss a b = num_sub (loss b) (loss a)"

definition counties_of :: "counties_response option \<Rightarrow> county list option" where
  "counties_of meta = (case meta of None \<Rightarrow> None | Some m \<Rightarrow> counties m)"

definition topSorted :: "counties_response option \<Rightarrow> county list" where
  "topSorted meta = sort_cmp by_loss (case counties_of meta of None \<Rightarrow> [] | Some cs \<Rightarrow> cs)"

fun wf_num :: "number \<Rightarrow> bool" where
  "wf_num (Fin x) = is_double x"
| "wf_num a = True"

definition wf_county :: "county \<Rightarrow> bool" where
  "wf_county c = (case el_total_sum c of None \<Rightarrow> True | Some a \<Rightarrow> wf_num a)"

definition name_or_empty :: "county \<Rightarrow> string" where
  "name_or_empty c = (case name c of None \<Rightarrow> [] | Some n \<Rightarrow> n)"

definition suggestions :: "string \<Rightarrow> counties_response option \<Rightarrow> county list" where
  "suggestions q meta =
     (if trim q = [] then []
      else case counties_of meta of
        None \<Rightarrow> []
      | Some cs \<Rightarrow>
          (let t = toLowerCase (trim q)
           in take 3 (sort_cmp by_loss
                (filter (\<lambda>c. includes_str (toLowerCase (name_or_empty c)) t) cs))))"

section \<open>Request URLs\<close>

text \<open>
  \<^verbatim>\<open>encodeURIComponent\<close> keeps the unreserved characters and writes every other code
  unit as the percent-escaped bytes of its UTF-8 encoding. \<open>decodeURIComponent\<close> is the
  reading of such a text back, as the receiver of a query does it.
\<close>

definition unreserved :: "char \<Rightarrow> bool" where
  \<comment> \<open>letters, digits and \<^verbatim>\<open>- _ . ! ~ * ' ( )\<close>\<close>
  "unreserved c \<longleftrightarrow> (let n = of_char c :: nat in
     (65 \<le> n \<and> n \<le> 90) \<or> (97 \<le> n \<and> n \<le> 122) \<or> (48 \<le> n \<and> n \<le> 57)
     \<or> n \<in> {45, 95, 46, 33, 126, 42, 39, 40, 41})"

definition hex_digit :: "nat \<Rightarrow> char" where
  "hex_digit d = char_of (if d < 10 then 48 + d else 55 + d)"

definition pct :: "nat \<Rightarrow> string" where
  "pct b = [CHR ''%'', hex_digit (b div 16), hex_digit (b mod 16)]"

definition utf8 :: "char \<Rightarrow> nat list" where
  "utf8 c = (let n = of_char c :: nat in
     if n < 128 then [n] else [192 + n div 64, 128 + n mod 64])"

definition encode_unit :: "char \<Rightarrow> string" where
  "encode_unit c = (if unreserved c then [c] else concat (map pct (utf8 c)))"

definition encodeURIComponent :: "string \<Rightarrow> string" where
  "encodeURIComponent s = concat (map encode_unit s)"

definition hex_val :: "char \<Rightarrow> nat" where
  "hex_val c = (let n = of_char c :: nat in
     if 48 \<le> n \<and> n \<le> 57 then n - 48
     else if 65 \<le> n \<and> n \<le> 70 then n - 55
     else if 97 \<le> n \<and> n \<le> 102 then n - 87 else 0)"

fun unpct :: "string \<Rightarrow> nat list" where
  "unpct (a # b # c # r) =
     (if a = CHR ''%'' then (hex_val b * 16 + hex_val c) # unpct r
      else of_char a # unpct (b # c # r))"
| "unpct (a # r) = of_char a # unpct r"
| "unpct [] = []"

fun utf8_decode :: "nat list \<Rightarrow> string" where
  "utf8_decode (a # b # r) =
     (if 192 \<le> a then char_of ((a - 192) * 64 + (b - 128)) # utf8_decode r
      else char_of a # utf8_decode (b # r))"
| "utf8_decode (a # r) = char_of a # utf8_decode r"
| "utf8_decode [] = []"

definition decodeURIComponent :: "string \<Rightarrow> string" where
  "decodeURIComponent s = utf8_decode (unpct s)"

definition series_url :: "string \<Rightarrow> string option \<Rightarrow> string \<Rightarrow> string" where
  \<comment> \<open>\<^verbatim>\<open>`${API}/loss/county?fips=${fips}${q}`\<close> with
     \<^verbatim>\<open>q = runId ? `&run=${encodeURIComponent(runId)}` : ""\<close>\<close>
  "series_url api rid fp =
     api @ ''/loss/county?fips='' @ fp @
     (case rid of
        None \<Rightarrow> []
      | Some r \<Rightarrow> if r = [] then [] else ''&run='' @ encodeURIComponent r)"

section \<open>The view state and its transitions\<close>

text \<open>
  The state of the component \<^verbatim>\<open>App\<close>: the values of its \<^verbatim>\<open>useState\<close> cells that the
  data flow uses. A request of axios either resolves with the body of the response or is
  rejected (timeout, network error, status outside 2xx); a body of \<open>None\<close> is a
  missing body.
\<close>

record app_state =
  countiesMeta :: "counties_response option"
  runId :: "string option"
  selected :: "(string \<times> string) option"
  series :: "series_point list option"
  loading :: bool
  error :: string

datatype 'a response = Resolved 'a | Rejected

record county_body =
  body_series :: "raw_point list option"

definition initial_state :: app_state where
  "initial_state = \<lparr>countiesMeta = None, runId = None, selected = None, series = None,
     loading = True, error = []\<rparr>"

definition run_or_null :: "counties_response option \<Rightarrow> string option" where
  \<comment> \<open>\<^verbatim>\<open>r.data?.run || null\<close>\<close>
  "run_or_null d =
     (case d of
        None \<Rightarrow> None
      | Some m \<Rightarrow> (case run m of None \<Rightarrow> None | Some r \<Rightarrow> if r = [] then None else Some r))"

definition counties_loaded :: "bool \<Rightarrow> counties_response option response \<Rightarrow> app_state \<Rightarrow> app_state" where
  \<comment> \<open>the effect that loads the county list, from the settling of its request on;
     \<open>mounted\<close> is the flag of the effect at that moment\<close>
  "counties_loaded mounted r s =
     (case r of
        Resolved d \<Rightarrow>
          if mounted then s\<lparr>countiesMeta := d, runId := run_or_null d, loading := False\<rparr>
          else s\<lparr>loading := False\<rparr>
      | Rejected \<Rightarrow> s\<lparr>error := ''Failed to load /loss/counties'', loading := False\<rparr>)"

definition no_timeseries :: "string \<Rightarrow> string \<Rightarrow> string" where
  \<comment> \<open>\<^verbatim>\<open>`No timeseries for ${name} (${fips})`\<close>\<close>
  "no_timeseries fp nm = ''No timeseries for '' @ nm @ '' ('' @ fp @ '')''"

definition loadCounty_start :: "string \<Rightarrow> string \<Rightarrow> string \<Rightarrow> app_state \<Rightarrow> app_state \<times> string" where
  \<comment> \<open>\<^verbatim>\<open>loadCounty(fips, name)\<close> up to its \<^verbatim>\<open>await\<close>: the new state and the URL requested\<close>
  "loadCounty_start api fp nm s =
     (s\<lparr>selected := Some (fp, nm), series := None, error := []\<rparr>,
      series_url api (runId s) fp)"

definition loadCounty_settled :: "string \<Rightarrow> string \<Rightarrow> county_body option response \<Rightarrow> app_state \<Rightarrow> app_state" where
  \<comment> \<open>\<^verbatim>\<open>loadCounty(fips, name)\<close> after its \<^verbatim>\<open>await\<close>; reading \<^verbatim>\<open>r.data.series\<close> of a
     missing body throws, which the \<^verbatim>\<open>catch\<close> handles like a rejection\<close>
  "loadCounty_settled fp nm r s =
     (case r of
        Resolved (Some b) \<Rightarrow> s\<lparr>series := Some (derive_series (body_series b))\<rparr>
      | Resolved None \<Rightarrow> s\<lparr>error := no_timeseries fp nm\<rparr>
      | Rejected \<Rightarrow> s\<lparr>error := no_timeseries fp nm\<rparr>)"

text \<open>
  A session: the view state, the calls of \<^verbatim>\<open>loadCounty\<close> whose request is in flight
  (each with the \<^verbatim>\<open>fips\<close> and \<^verbatim>\<open>name\<close> of its closure), and the URLs requested so
  far. An event is the activation of a county (map click, list click or suggestion pick,
  all of which call \<^verbatim>\<open>loadCounty\<close>) or the settling of the request in flight at a
  position, in any order.
\<close>

record session =
  app :: app_state
  in_flight :: "(string \<times> string) list"
  requested :: "string list"

datatype event =
  Activate string string
| Settle nat "county_body option response"

definition drop_nth :: "nat \<Rightarrow> 'a list \<Rightarrow> 'a list" where
  "drop_nth i xs = take i xs @ drop (Suc i) xs"

fun step :: "string \<Rightarrow> session \<Rightarrow> event \<Rightarrow> session" where
  "step api w (Activate fp nm) =
     (let (s, url) = loadCounty_start api fp nm (app w)
      in w\<lparr>app := s, in_flight := in_flight w @ [(fp, nm)], requested := requested w @ [url]\<rparr>)"
| "step api w (Settle i r) =
     (if i < length (in_flight w)
      then (let (fp, nm) = in_flight w ! i
            in w\<lparr>app := loadCounty_settled fp nm r (app w), in_flight := drop_nth i (in_flight w)\<rparr>)
      else w)"

definition run_events :: "string \<Rightarrow> session \<Rightarrow> event list \<Rightarrow> session" where
  "run_events api w evs = foldl (step api) w evs"

fun activations :: "event list \<Rightarrow> (string \<times> string) list" where
  "activations [] = []"
| "activations (Activate fp nm # evs) = (fp, nm) # activations evs"
| "activations (Settle i r # evs) = activations evs"

definition new_session :: "app_state \<Rightarrow> session" where
  "new_session s = \<lparr>app = s, in_flight = [], requested = []\<rparr>"

datatype controller = Idle | Loading | Loaded | Failed


section \<open>Arithmetic and rounding to integers\<close>

text \<open>
  Multiplication and division with the special values of IEEE 754. The model has one
  zero, which counts as positive where the sign of a zero decides a result (a quotient by
  zero); no divisor of the source is zero.
\<close>

fun num_mul :: "number \<Rightarrow> number \<Rightarrow> number" where
  "num_mul (Fin x) (Fin y) = fl (x * y)"
| "num_mul NaN b = NaN"
| "num_mul a NaN = NaN"
| "num_mul PInf (Fin y) = (if y = 0 then NaN else if 0 < y then PInf else NInf)"
| "num_mul NInf (Fin y) = (if y = 0 then NaN else if 0 < y then NInf else PInf)"
| "num_mul (Fin x) PInf = (if x = 0 then NaN else if 0 < x then PInf else NInf)"
| "num_mul (Fin x) NInf = (if x = 0 then NaN else if 0 < x then NInf else PInf)"
| "num_mul PInf PInf = PInf"
| "num_mul PInf NInf = NInf"
| "num_mul NInf PInf = NInf"
| "num_mul NInf NInf = PInf"

fun num_div :: "number \<Rightarrow> number \<Rightarrow> number" where
  "num_div (Fin x) (Fin y) =
     (if y = 0 then (if x = 0 then NaN else if 0 < x then PInf else NInf) else fl (x / y))"
| "num_div NaN b = NaN"
| "num_div a NaN = NaN"
| "num_div (Fin x) b = Fin 0"
| "num_div PInf (Fin y) = (if 0 \<le> y then PInf else NInf)"
| "num_div NInf (Fin y) = (if 0 \<le> y then NInf else PInf)"
| "num_div a b = NaN"

definition Math_max :: "number \<Rightarrow> number \<Rightarrow> number" where
  "Math_max a b = (if a = NaN \<or> b = NaN then NaN else if num_le a b then b else a)"

definition Math_min :: "number \<Rightarrow> number \<Rightarrow> number" where
  "Math_min a b = (if a = NaN \<or> b = NaN then NaN else if num_le a b then a else b)"

fun Math_round :: "number \<Rightarrow> number" where
  \<comment> \<open>the integer nearest to the argument, the larger one of two\<close>
  "Math_round (Fin x) = Fin (of_int \<lfloor>x + 1 / 2\<rfloor>)"
| "Math_round a = a"

fun rounds_to_negative_zero :: "number \<Rightarrow> bool" where
  \<comment> \<open>\<^verbatim>\<open>Math.round\<close> returns \<open>-0\<close> on the negative numbers from \<open>-0.5\<close> on\<close>
  "rounds_to_negative_zero (Fin x) = (- (1 / 2) \<le> x \<and> x < 0)"
| "rounds_to_negative_zero a = False"

section \<open>Numbers as text\<close>

text \<open>
  \<open>numberToString\<close> is the conversion of a number to a string (as in a template
  literal): the shortest decimal digits \<open>s\<close> with an exponent \<open>n\<close> whose value rounds to
  the number, chosen nearest to it, written without an exponent when \<open>-6 < n \<le> 21\<close>.
  Seventeen digits suffice for every binary64 value. A rational that is no binary64
  value has no such digits; for it the model takes its first 18.
  \<open>toFixed\<close> is \<^verbatim>\<open>Number.prototype.toFixed\<close>.
\<close>

definition digit_char :: "int \<Rightarrow> char" where
  "digit_char d = char_of (48 + d)"

function digits :: "int \<Rightarrow> string" where
  \<comment> \<open>the decimal digits of a non-negative integer\<close>
  "digits n = (if n < 10 then [digit_char n] else digits (n div 10) @ [digit_char (n mod 10)])"
  by pat_completeness auto
termination
  by (relation "measure nat") auto

function declen :: "int \<Rightarrow> int" where
  \<comment> \<open>the number of decimal digits of a positive integer\<close>
  "declen n = (if 0 < n then declen (n div 10) + 1 else 0)"
  by pat_completeness auto
termination
  by (relation "measure nat") auto

definition ilog10 :: "rat \<Rightarrow> int" where
  \<comment> \<open>the decimal exponent \<open>\<lfloor>log\<^sub>1\<^sub>0 x\<rfloor>\<close> of a positive rational\<close>
  "ilog10 x = (if 1 \<le> x then declen \<lfloor>x\<rfloor> - 1 else - declen (\<lceil>1 / x\<rceil> - 1))"

definition candidate :: "rat \<Rightarrow> nat \<Rightarrow> rat option" where
  \<comment> \<open>the value of \<open>k\<close> digits that rounds to \<open>x\<close> and is nearest to it, if there is one\<close>
  "candidate x k =
     (let u = 10 powi (ilog10 x + 1 - int k); f = \<lfloor>x / u\<rfloor>; lo = of_int f * u; hi = lo + u;
          l = (fl lo = Fin x); h = (fl hi = Fin x)
      in if l \<and> h then
           (if x - lo < hi - x then Some lo
            else if hi - x < x - lo then Some hi
            else if even f then Some lo else Some hi)
         else if l then Some lo
         else if h then Some hi
         else None)"

fun shortest :: "rat \<Rightarrow> nat \<Rightarrow> nat \<Rightarrow> rat \<times> nat" where
  \<comment> \<open>the search for the least number of digits, from \<open>k\<close> on\<close>
  "shortest x k 0 = (of_int \<lfloor>x / 10 powi (ilog10 x + 1 - int k)\<rfloor> * 10 powi (ilog10 x + 1 - int k), k)"
| "shortest x k (Suc i) =
     (case candidate x k of Some v \<Rightarrow> (v, k) | None \<Rightarrow> shortest x (Suc k) i)"

definition shortest_digits :: "rat \<Rightarrow> string \<times> int" where
  \<comment> \<open>the digits \<open>s\<close> and the exponent \<open>n\<close> of a positive number: its value is \<open>0.s \<times> 10\<^sup>n\<close>\<close>
  "shortest_digits x =
     (let (v, k) = shortest x 1 17;
          n0 = ilog10 x + 1;
          s0 = \<lfloor>v / 10 powi (n0 - int k)\<rfloor>
      in if s0 = 10 ^ k then (digits (10 ^ (k - 1)), n0 + 1) else (digits s0, n0))"

definition positive_to_string :: "rat \<Rightarrow> string" where
  "positive_to_string x =
     (let (ds, n) = shortest_digits x; k = int (length ds)
      in if k \<le> n \<and> n \<le> 21 then ds @ replicate (nat (n - k)) CHR ''0''
         else if 0 < n \<and> n \<le> 21 then take (nat n) ds @ ''.'' @ drop (nat n) ds
         else if - 6 < n \<and> n \<le> 0 then ''0.'' @ replicate (nat (- n)) CHR ''0'' @ ds
         else (if k = 1 then ds else take 1 ds @ ''.'' @ drop 1 ds)
              @ ''e'' @ (if n - 1 < 0 then ''-'' else ''+'') @ digits \<bar>n - 1\<bar>)"

fun numberToString :: "number \<Rightarrow> string" where
  "numberToString NaN = ''NaN''"
| "numberToString PInf = ''Infinity''"
| "numberToString NInf = ''-Infinity''"
| "numberToString (Fin x) =
     (if x = 0 then ''0''
      else if x < 0 then ''-'' @ positive_to_string (- x)
      else positive_to_string x)"

fun toFixed :: "nat \<Rightarrow> number \<Rightarrow> string" where
  "toFixed f (Fin x) =
     (if 10 ^ 21 \<le> \<bar>x\<bar> then numberToString (Fin x)
      else
        (let n = \<lfloor>\<bar>x\<bar> * 10 ^ f + 1 / 2\<rfloor>;
             m = digits n;
             z = (if f \<noteq> 0 \<and> length m \<le> f then replicate (f + 1 - length m) CHR ''0'' @ m else m);
             k = length z
         in (if x < 0 then ''-'' else [])
            @ (if f \<noteq> 0 then take (k - f) z @ ''.'' @ drop (k - f) z else z)))"
| "toFixed f a = numberToString a"

section \<open>The formatting helpers\<close>

text \<open>
  \<^verbatim>\<open>fmtCurrencyShort\<close> and \<^verbatim>\<open>shade\<close> of the source. The text of
  \<^verbatim>\<open>toLocaleString()\<close> depends on the locale of the host, so it is a parameter \<open>loc\<close>
  of \<open>fmtCurrencyShort\<close>: it maps the rounded number, and whether that is the negative
  zero, to its text. A missing argument (\<^verbatim>\<open>undefined\<close>, \<^verbatim>\<open>null\<close>) is \<open>None\<close>.
\<close>

definition fmtCurrencyShort :: "(bool \<Rightarrow> number \<Rightarrow> string) \<Rightarrow> number option \<Rightarrow> string" where
  "fmtCurrencyShort loc n =
     (let v = or_num n (Fin 0)
      in if num_le (Fin (10 ^ 9)) v then ''$'' @ toFixed 2 (num_div v (Fin (10 ^ 9))) @ ''B''
         else if num_le (Fin (10 ^ 6)) v then ''$'' @ toFixed 2 (num_div v (Fin (10 ^ 6))) @ ''M''
         else if num_le (Fin (10 ^ 3)) v then ''$'' @ toFixed 1 (num_div v (Fin (10 ^ 3))) @ ''K''
         else ''$'' @ loc (rounds_to_negative_zero v) (Math_round v))"

definition clamp01 :: "number \<Rightarrow> number" where
  \<comment> \<open>\<^verbatim>\<open>Math.max(0, Math.min(1, q))\<close>\<close>
  "clamp01 q = Math_max (Fin 0) (Math_min (Fin 1) q)"

definition mix :: "number \<Rightarrow> rat \<Rightarrow> rat \<Rightarrow> number" where
  \<comment> \<open>\<^verbatim>\<open>(a, b) => Math.round(a + (b - a) * t)\<close>\<close>
  "mix t a b = Math_round (num_add (Fin a) (num_mul (num_sub (Fin b) (Fin a)) t))"

definition shade_t :: "number option \<Rightarrow> number option \<Rightarrow> number" where
  \<comment> \<open>\<^verbatim>\<open>Math.max(0, Math.min(1, (value || 0) / (max || 1)))\<close>\<close>
  "shade_t v mx = Math_max (Fin 0) (Math_min (Fin 1) (num_div (or_num v (Fin 0)) (or_num mx (Fin 1))))"

definition shade :: "number option \<Rightarrow> number option \<Rightarrow> string" where
  "shade v mx =
     (let t = shade_t v mx
      in ''rgb('' @ numberToString (mix t 219 30) @ '', '' @ numberToString (mix t 234 64)
         @ '', '' @ numberToString (mix t 254 175) @ '')'')"

section \<open>Decimal numerals and their values\<close>

text \<open>
  The notions in which the properties of the formatted text are stated: the decimal
  numeral of a non-negative number rounded to \<open>f\<close> decimals (the nearest multiple of
  \<open>10\<^sup>-\<^sup>f\<close>, the larger one of two), the value that such a numeral denotes, and the
  number that the text of \<open>fmtCurrencyShort\<close> denotes: the value of its numeral times
  the unit of its suffix and, for a quotient written by \<open>numberToString\<close>, the number
  that this text is read back as.
\<close>

fun frac_digits :: "nat \<Rightarrow> int \<Rightarrow> string" where
  "frac_digits 0 r = []"
| "frac_digits (Suc f) r = frac_digits f (r div 10) @ [digit_char (r mod 10)]"

definition padded :: "nat \<Rightarrow> int \<Rightarrow> string" where
  \<comment> \<open>the digits of \<open>r\<close>, filled with zeros to at least \<open>f + 1\<close> digits as \<open>toFixed\<close> does\<close>
  "padded f r = (if f \<noteq> 0 \<and> length (digits r) \<le> f
     then replicate (f + 1 - length (digits r)) CHR ''0'' @ digits r else digits r)"

definition decimal :: "nat \<Rightarrow> rat \<Rightarrow> string" where
  "decimal f x =
     (let r = \<lfloor>x * 10 ^ f + 1 / 2\<rfloor>
      in digits (r div 10 ^ f) @ ''.'' @ frac_digits f r)"

definition digits_value :: "string \<Rightarrow> int" where
  "digits_value s = foldl (\<lambda>a c. 10 * a + (of_char c - 48)) 0 s"

definition numeral_value :: "string \<Rightarrow> rat" where
  "numeral_value s =
     (let i = takeWhile (\<lambda>c. c \<noteq> CHR ''.'') s;
          d = drop 1 (dropWhile (\<lambda>c. c \<noteq> CHR ''.'') s)
      in of_int (digits_value i) + of_int (digits_value d) / 10 ^ length d)"

fun scaled :: "nat \<Rightarrow> rat \<Rightarrow> number \<Rightarrow> number" where
  \<comment> \<open>the number denoted by the text of the quotient \<open>q\<close> before a suffix of unit \<open>u\<close>\<close>
  "scaled f u (Fin q) =
     (if q < 10 ^ 21 then Fin (of_int \<lfloor>q * 10 ^ f + 1 / 2\<rfloor> / 10 ^ f * u) else Fin (q * u))"
| "scaled f u a = a"

definition denoted :: "number option \<Rightarrow> number" where
  "denoted n =
     (let v = or_num n (Fin 0)
      in if num_le (Fin (10 ^ 9)) v then scaled 2 (10 ^ 9) (num_div v (Fin (10 ^ 9)))
         else if num_le (Fin (10 ^ 6)) v then scaled 2 (10 ^ 6) (num_div v (Fin (10 ^ 6)))
         else if num_le (Fin (10 ^ 3)) v then scaled 1 (10 ^ 3) (num_div v (Fin (10 ^ 3)))
         else Math_round v)"

section \<open>Example data\<close>

definition ex_counties :: "county list" where
  "ex_counties =
    [\<lparr>fips = ''48085'', name = Some ''Collin'', el_total_sum = Some (Fin 2500)\<rparr>,
     \<lparr>fips = ''48201'', name = Some ''Harris'', el_total_sum = Some (Fin 9000)\<rparr>,
     \<lparr>fips = ''48089'', name = Some ''Colorado'', el_total_sum = Some (Fin 2500)\<rparr>,
     \<lparr>fips = ''48083'', name = Some ''Coleman'', el_total_sum = None\<rparr>,
     \<lparr>fips = ''48097'', name = Some ''Cooke'', el_total_sum = Some (Fin (1 / 2))\<rparr>,
     \<lparr>fips = ''48093'', name = Some ''COMANCHE'', el_total_sum = Some (Fin 7000)\<rparr>]"

definition ex_meta :: "counties_response option" where
  "ex_meta = Some \<lparr>run = Some ''run_dt=20240101T000000Z'', counties = Some ex_counties\<rparr>"

definition ex_response :: counties_response where
  "ex_response = \<lparr>run = Some ''run_dt=20240101T000000Z'', counties = Some ex_counties\<rparr>"

definition ex_api :: string where
  "ex_api = ''https://api.example''"

definition ex_body_A :: county_body where
  "ex_body_A = \<lparr>body_series = Some (raw_of_steps [1, 2])\<rparr>"

definition ex_body_B :: county_body where
  "ex_body_B = \<lparr>body_series = Some (raw_of_steps [100, 200, 50])\<rparr>"

definition group3 :: "string \<Rightarrow> string" where
  \<comment> \<open>the digits in groups of three, counted from the right, separated by commas\<close>
  "group3 ds = concat (map (\<lambda>(i, c). (if i \<noteq> 0 \<and> (length ds - i) mod 3 = 0 then '','' else []) @ [c])
     (enumerate 0 ds))"

definition integer_digits :: "rat \<Rightarrow> string" where
  \<comment> \<open>the digits before the decimal point of a non-negative number, from the digits of
     its shortest decimal\<close>
  "integer_digits x =
     (if x = 0 then ''0''
      else (let (ds, n) = shortest_digits x; k = int (length ds)
            in if n \<le> 0 then ''0''
               else if k \<le> n then ds @ replicate (nat (n - k)) CHR ''0''
               else take (nat n) ds))"

fun en_US :: "bool \<Rightarrow> number \<Rightarrow> string" where
  \<comment> \<open>\<^verbatim>\<open>toLocaleString()\<close> in the locale en-US on the values of \<^verbatim>\<open>Math.round\<close>: a minus
     sign for a negative number and for the negative zero, then the grouped digits of the
     shortest decimal that reads back as the number. The infinity sign of that locale
     (U+221E) is not a code unit below 256: it is written here as the three bytes of its
     UTF-8 encoding.\<close>
  "en_US nz (Fin x) = (if x < 0 \<or> nz then ''-'' else []) @ group3 (integer_digits \<bar>x\<bar>)"
| "en_US nz NaN = ''NaN''"
| "en_US nz PInf = [CHR 0xE2, CHR 0x88, CHR 0x9E]"
| "en_US nz NInf = ''-'' @ [CHR 0xE2, CHR 0x88, CHR 0x9E]"

section \<open>Properties of rounding\<close>


lemma ilog2_le: assumes "0 < x" shows "2 powi (ilog2 x) \<le> x"
proof (cases "1 \<le> x")
  case True
  then have p: "0 < \<lfloor>x\<rfloor>" by simp
  from bitlen_bounds [OF p] have "2 ^ nat (bitlen \<lfloor>x\<rfloor> - 1) \<le> \<lfloor>x\<rfloor>" by simp
  then have "(of_int (2 ^ nat (bitlen \<lfloor>x\<rfloor> - 1)) :: rat) \<le> of_int \<lfloor>x\<rfloor>"
    by (simp only: of_int_le_iff)
  also have "\<dots> \<le> x" by simp
  finally have "(2::rat) ^ nat (bitlen \<lfloor>x\<rfloor> - 1) \<le> x" by simp
  moreover have "1 \<le> bitlen \<lfloor>x\<rfloor>" using p by (auto simp: bitlen_alt_def)
  ultimately show ?thesis using True by (simp add: ilog2_def power_int_def)
next
  case False
  with assms have x1: "x < 1" by simp
  define n where "n = \<lceil>1 / x\<rceil> - 1"
  have "1 < 1 / x" using assms x1 by simp
  then have "1 < \<lceil>1 / x\<rceil>" by (simp add: less_ceiling_iff)
  then have n: "0 < n" by (simp add: n_def)
  from bitlen_bounds [OF n] have "n < 2 ^ nat (bitlen n)" by simp
  then have "\<lceil>1 / x\<rceil> \<le> 2 ^ nat (bitlen n)" by (simp add: n_def)
  then have "1 / x \<le> of_int (2 ^ nat (bitlen n))" by (simp only: ceiling_le_iff)
  then have "1 / x \<le> 2 ^ nat (bitlen n)" by simp
  then have "1 \<le> 2 ^ nat (bitlen n) * x" using assms by (simp add: field_simps)
  then have "1 / 2 ^ nat (bitlen n) \<le> x" by (simp add: field_simps)
  moreover have "1 \<le> bitlen n" using n by (auto simp: bitlen_alt_def)
  ultimately show ?thesis using False
    by (simp add: ilog2_def n_def power_int_def field_simps)
qed

lemma ilog2_gt: assumes "0 < x" shows "x < 2 powi (ilog2 x + 1)"
proof (cases "1 \<le> x")
  case True
  then have p: "0 < \<lfloor>x\<rfloor>" by simp
  from bitlen_bounds [OF p] have "\<lfloor>x\<rfloor> < 2 ^ nat (bitlen \<lfloor>x\<rfloor>)" by simp
  then have "x < of_int (2 ^ nat (bitlen \<lfloor>x\<rfloor>))" by (simp only: floor_less_iff)
  then have "x < 2 ^ nat (bitlen \<lfloor>x\<rfloor>)" by simp
  moreover have "1 \<le> bitlen \<lfloor>x\<rfloor>" using p by (auto simp: bitlen_alt_def)
  ultimately show ?thesis using True by (simp add: ilog2_def power_int_def)
next
  case False
  with assms have x1: "x < 1" by simp
  define n where "n = \<lceil>1 / x\<rceil> - 1"
  have "1 < 1 / x" using assms x1 by simp
  then have "1 < \<lceil>1 / x\<rceil>" by (simp add: less_ceiling_iff)
  then have n: "0 < n" by (simp add: n_def)
  then have b1: "1 \<le> bitlen n" by (auto simp: bitlen_alt_def)
  from bitlen_bounds [OF n] have "2 ^ nat (bitlen n - 1) \<le> n" by simp
  then have "2 ^ nat (bitlen n - 1) < \<lceil>1 / x\<rceil>" by (simp add: n_def)
  then have "of_int (2 ^ nat (bitlen n - 1)) < 1 / x" by (simp only: less_ceiling_iff)
  then have "2 ^ nat (bitlen n - 1) < 1 / x" by simp
  then have "2 ^ nat (bitlen n - 1) * x < 1" using assms by (simp add: field_simps)
  then have "x < 1 / 2 ^ nat (bitlen n - 1)" by (simp add: field_simps)
  moreover have "(2::rat) powi (1 - bitlen n) = 1 / 2 ^ nat (bitlen n - 1)"
    using b1 by (simp add: power_int_def field_simps)
  ultimately show ?thesis using False
    by (simp add: ilog2_def n_def)
qed


lemma rne_of_int: "rne (of_int n) = n"
  by (simp add: rne_def)

lemma rne_mono: assumes "x \<le> y" shows "rne x \<le> rne y"
proof (cases "\<lfloor>x\<rfloor> = \<lfloor>y\<rfloor>")
  case True
  then show ?thesis using assms by (auto simp: rne_def Let_def)
next
  case False
  with assms have "\<lfloor>x\<rfloor> < \<lfloor>y\<rfloor>" using floor_mono [of x y] by simp
  moreover have "rne x \<le> \<lfloor>x\<rfloor> + 1" by (simp add: rne_def Let_def)
  moreover have "\<lfloor>y\<rfloor> \<le> rne y" by (simp add: rne_def Let_def)
  ultimately show ?thesis by linarith
qed

lemma rne_nonneg: "0 \<le> x \<Longrightarrow> 0 \<le> rne x"
  using rne_mono [of 0 x] rne_of_int [of 0] by simp

lemma rne_nonpos: "x \<le> 0 \<Longrightarrow> rne x \<le> 0"
  using rne_mono [of x 0] rne_of_int [of 0] by simp

lemma rne_ge_one: "1 \<le> x \<Longrightarrow> 1 \<le> rne x"
  using rne_mono [of 1 x] rne_of_int [of 1] by simp

lemma quantum_pos: "0 < quantum x"
  unfolding quantum_def by (rule zero_less_power_int) simp

lemma least_pos: "(0::rat) < 2 powi (- 1074)"
  by (rule zero_less_power_int) simp

lemma quantum_le: assumes "2 powi (- 1074) \<le> \<bar>x\<bar>" shows "quantum x \<le> \<bar>x\<bar>"
proof -
  have p: "0 < \<bar>x\<bar>" using assms least_pos by linarith
  have "(2::rat) powi (ilog2 \<bar>x\<bar> - 52) \<le> 2 powi (ilog2 \<bar>x\<bar>)"
    by (rule power_int_increasing) simp_all
  also have "\<dots> \<le> \<bar>x\<bar>" by (rule ilog2_le [OF p])
  finally show ?thesis using assms unfolding quantum_def max_def
    by (cases "ilog2 \<bar>x\<bar> - 52 \<le> - 1074") (simp_all only: if_True if_False)
qed

text \<open>the sign of a rounded value\<close>

lemma fl_nonpos: assumes "x \<le> 0" shows "\<not> num_less (Fin 0) (fl x)"
proof -
  have "x / quantum x \<le> 0" using assms quantum_pos [of x] by (simp add: divide_le_0_iff)
  then have "rne (x / quantum x) \<le> 0" by (rule rne_nonpos)
  then have "of_int (rne (x / quantum x)) * quantum x \<le> 0"
    using quantum_pos [of x] by (simp add: mult_le_0_iff)
  then show ?thesis by (auto simp: fl_def rounded_def overflow_def)
qed

lemma fl_pos: assumes "2 powi (- 1074) \<le> x" shows "num_less (Fin 0) (fl x)"
proof -
  have p: "0 < x" using assms least_pos by linarith
  then have "quantum x \<le> x" using quantum_le [of x] assms by simp
  then have "1 \<le> x / quantum x" using quantum_pos [of x] by (simp add: field_simps)
  then have "1 \<le> rne (x / quantum x)" by (rule rne_ge_one)
  then have "0 < of_int (rne (x / quantum x)) * quantum x"
    using quantum_pos [of x] by simp
  then show ?thesis using p by (auto simp: fl_def rounded_def overflow_def)
qed

text \<open>binary64 values are multiples of the least subnormal\<close>

lemma is_double_grid: assumes "is_double x" shows "\<exists>n::int. x = of_int n * 2 powi (- 1074)"
proof (cases "x = 0")
  case True
  then show ?thesis by (intro exI [of _ 0]) simp
next
  case False
  define k where "k = max (ilog2 \<bar>x\<bar> - 52) (- 1074)"
  have x: "x = of_int (rne (x / quantum x)) * quantum x"
    using assms False by (auto simp: is_double_def fl_def rounded_def overflow_def split: if_splits)
  have k: "0 \<le> k + 1074" by (simp add: k_def)
  have "(2::rat) powi (k + 1074) * 2 powi (- 1074) = 2 powi ((k + 1074) + (- 1074))"
    by (rule power_int_add [symmetric]) simp
  also have "(k + 1074) + (- 1074) = k" by simp
  finally have q: "quantum x = 2 powi (k + 1074) * 2 powi (- 1074)"
    by (simp only: quantum_def k_def)
  have "(2::rat) powi (k + 1074) = of_int (2 ^ nat (k + 1074))"
    using k by (simp only: power_int_def if_True of_int_power of_int_numeral)
  with q have "quantum x = of_int (2 ^ nat (k + 1074)) * 2 powi (- 1074)" by (simp only:)
  then have "x = of_int (rne (x / quantum x)) * (of_int (2 ^ nat (k + 1074)) * 2 powi (- 1074))"
    using x by (simp only:)
  then have "x = of_int (rne (x / quantum x) * 2 ^ nat (k + 1074)) * 2 powi (- 1074)"
    by (simp only: of_int_mult mult.assoc)
  then show ?thesis by blast
qed

lemma double_diff_pos:
  assumes "is_double x" "is_double y" "x < y"
  shows "2 powi (- 1074) \<le> y - x"
proof -
  obtain m n :: int where x: "x = of_int m * 2 powi (- 1074)" and y: "y = of_int n * 2 powi (- 1074)"
    using is_double_grid assms by blast
  note u = least_pos
  from assms(3) have "m < n" unfolding x y using u by (simp add: mult_less_cancel_right)
  then have "1 \<le> n - m" by simp
  then have "(1::rat) \<le> of_int (n - m)" by (simp only: of_int_1_le_iff)
  then have "1 * 2 powi (- 1074) \<le> (of_int (n - m) :: rat) * 2 powi (- 1074)"
    using u by (simp only: mult_le_cancel_right) simp
  then show ?thesis unfolding x y by (simp add: algebra_simps)
qed

lemma fl_diff_pos_iff:
  assumes "is_double x" "is_double y"
  shows "num_less (Fin 0) (fl (y - x)) \<longleftrightarrow> x < y"
proof
  assume "num_less (Fin 0) (fl (y - x))"
  then show "x < y" using fl_nonpos [of "y - x"] by (cases "x < y") auto
next
  assume "x < y"
  then show "num_less (Fin 0) (fl (y - x))"
    using double_diff_pos [OF assms] by (intro fl_pos)
qed

lemma rne_minus: "rne (- y) = - rne y"
proof (cases "y = of_int \<lfloor>y\<rfloor>")
  case True
  define n where "n = \<lfloor>y\<rfloor>"
  have "y = of_int n" using True by (simp add: n_def)
  then show ?thesis by (simp add: rne_of_int flip: of_int_minus)
next
  case False
  then have ni: "y \<notin> \<int>" by (auto elim!: Ints_cases)
  have c: "\<lceil>y\<rceil> = \<lfloor>y\<rfloor> + 1" using False ni by (simp add: ceiling_altdef)
  have "\<lfloor>- y\<rfloor> = - \<lceil>y\<rceil>" by (simp add: ceiling_def)
  then have f: "\<lfloor>- y\<rfloor> = - \<lfloor>y\<rfloor> - 1" by (simp add: c)
  have "of_int \<lfloor>y\<rfloor> \<le> y" by (rule of_int_floor_le)
  moreover have "of_int \<lfloor>y\<rfloor> \<noteq> y" using False by (rule not_sym)
  ultimately have "of_int \<lfloor>y\<rfloor> < y" by (rule le_neq_trans)
  then show ?thesis unfolding rne_def Let_def f
    by (auto simp: algebra_simps)
qed

lemma powi_less_cancel: assumes "(2::rat) powi m < 2 powi n" shows "m < n"
proof (rule ccontr)
  assume "\<not> m < n"
  then have "(2::rat) powi n \<le> 2 powi m" by (intro power_int_increasing) simp_all
  with assms show False by simp
qed

lemma ilog2_mono: assumes "0 < x" "x \<le> y" shows "ilog2 x \<le> ilog2 y"
proof -
  have "2 powi (ilog2 x) \<le> x" using assms(1) by (rule ilog2_le)
  also have "x \<le> y" by fact
  also have "y < 2 powi (ilog2 y + 1)" using assms by (intro ilog2_gt) simp
  finally have "(2::rat) powi (ilog2 x) < 2 powi (ilog2 y + 1)" .
  then have "ilog2 x < ilog2 y + 1" by (rule powi_less_cancel)
  then show ?thesis by simp
qed

lemma ilog2_ge_iff: assumes "0 < a" shows "k \<le> ilog2 a \<longleftrightarrow> 2 powi k \<le> a"
proof
  assume "k \<le> ilog2 a"
  then have "(2::rat) powi k \<le> 2 powi (ilog2 a)" by (intro power_int_increasing) simp_all
  also have "\<dots> \<le> a" using assms by (rule ilog2_le)
  finally show "2 powi k \<le> a" .
next
  assume h: "2 powi k \<le> a"
  have "a < 2 powi (ilog2 a + 1)" using assms by (rule ilog2_gt)
  with h have "(2::rat) powi k < 2 powi (ilog2 a + 1)" by simp
  then have "k < ilog2 a + 1" by (rule powi_less_cancel)
  then show "k \<le> ilog2 a" by simp
qed

lemma quantum_minus: "quantum (- x) = quantum x"
  by (simp add: quantum_def)

lemma rounded_minus: "rounded (- x) = - rounded x"
  by (simp add: rounded_def quantum_minus rne_minus)

lemma rounded_0: "rounded 0 = 0"
  by (simp add: rounded_def rne_def)

lemma rounded_nonneg: "0 \<le> x \<Longrightarrow> 0 \<le> rounded x"
  unfolding rounded_def using quantum_pos [of x] rne_nonneg [of "x / quantum x"]
  by (simp add: zero_le_mult_iff)

lemma rne_le_of_int: "x \<le> of_int n \<Longrightarrow> rne x \<le> n"
  using rne_mono [of x "of_int n"] by (simp add: rne_of_int)

lemma rne_ge_of_int: "of_int n \<le> x \<Longrightarrow> n \<le> rne x"
  using rne_mono [of "of_int n" x] by (simp add: rne_of_int)

lemma powi_as_int: "0 \<le> j \<Longrightarrow> (2::rat) powi j = of_int (2 ^ nat j)"
  by (simp add: power_int_def)

lemma rounded_le_powi:
  assumes "0 < x" "x \<le> 2 powi j" "max (ilog2 x - 52) (- 1074) \<le> j"
  shows "rounded x \<le> 2 powi j"
proof -
  define k where "k = max (ilog2 x - 52) (- 1074)"
  have q: "quantum x = 2 powi k" using assms(1) by (simp add: quantum_def k_def)
  have qp: "(0::rat) < 2 powi k" by (rule zero_less_power_int) simp
  have d: "(2::rat) powi j / 2 powi k = 2 powi (j - k)" by (simp add: power_int_diff)
  have "x / 2 powi k \<le> 2 powi j / 2 powi k" using assms(2) qp by (simp add: divide_right_mono)
  also have "\<dots> = of_int (2 ^ nat (j - k))" unfolding d using assms(3) by (simp add: powi_as_int k_def)
  finally have "rne (x / 2 powi k) \<le> 2 ^ nat (j - k)" by (rule rne_le_of_int)
  then have "of_int (rne (x / 2 powi k)) \<le> (of_int (2 ^ nat (j - k)) :: rat)" by (simp only: of_int_le_iff)
  also have "(of_int (2 ^ nat (j - k)) :: rat) = 2 powi (j - k)" using assms(3) by (simp add: powi_as_int k_def)
  finally have "of_int (rne (x / 2 powi k)) * (2::rat) powi k \<le> 2 powi (j - k) * 2 powi k"
    using qp by (intro mult_right_mono) simp_all
  also have "(2::rat) powi (j - k) * 2 powi k = 2 powi j" by (simp flip: power_int_add)
  finally show ?thesis by (simp add: rounded_def q)
qed

lemma rounded_ge_powi:
  assumes "0 < x" "2 powi j \<le> x" "max (ilog2 x - 52) (- 1074) \<le> j"
  shows "2 powi j \<le> rounded x"
proof -
  define k where "k = max (ilog2 x - 52) (- 1074)"
  have q: "quantum x = 2 powi k" using assms(1) by (simp add: quantum_def k_def)
  have qp: "(0::rat) < 2 powi k" by (rule zero_less_power_int) simp
  have d: "(2::rat) powi j / 2 powi k = 2 powi (j - k)" by (simp add: power_int_diff)
  have "(of_int (2 ^ nat (j - k)) :: rat) = 2 powi j / 2 powi k"
    unfolding d using assms(3) by (simp add: powi_as_int k_def)
  also have "\<dots> \<le> x / 2 powi k" using assms(2) qp by (simp add: divide_right_mono)
  finally have "2 ^ nat (j - k) \<le> rne (x / 2 powi k)" by (rule rne_ge_of_int)
  then have "(of_int (2 ^ nat (j - k)) :: rat) \<le> of_int (rne (x / 2 powi k))" by (simp only: of_int_le_iff)
  then have "(2::rat) powi (j - k) \<le> of_int (rne (x / 2 powi k))"
    using assms(3) by (simp add: powi_as_int k_def)
  then have "(2::rat) powi (j - k) * 2 powi k \<le> of_int (rne (x / 2 powi k)) * 2 powi k"
    using qp by (intro mult_right_mono) simp_all
  moreover have "(2::rat) powi (j - k) * 2 powi k = 2 powi j" by (simp flip: power_int_add)
  ultimately show ?thesis by (simp add: rounded_def q)
qed

lemma rounded_mono_pos: assumes "0 < x" "x \<le> y" shows "rounded x \<le> rounded y"
proof -
  define kx where "kx = max (ilog2 x - 52) (- 1074)"
  define ky where "ky = max (ilog2 y - 52) (- 1074)"
  have y: "0 < y" using assms by simp
  have e: "ilog2 x \<le> ilog2 y" using assms by (rule ilog2_mono)
  then have k: "kx \<le> ky" by (simp add: kx_def ky_def)
  have qx: "quantum x = 2 powi kx" using assms(1) by (simp add: quantum_def kx_def)
  have qy: "quantum y = 2 powi ky" using y by (simp add: quantum_def ky_def)
  show ?thesis
  proof (cases "kx = ky")
    case True
    have qp: "(0::rat) < 2 powi ky" by (rule zero_less_power_int) simp
    have "x / 2 powi ky \<le> y / 2 powi ky" using assms(2) qp by (simp add: divide_right_mono)
    then have "rne (x / 2 powi ky) \<le> rne (y / 2 powi ky)" by (rule rne_mono)
    then have "(of_int (rne (x / 2 powi ky)) :: rat) \<le> of_int (rne (y / 2 powi ky))"
      by (simp only: of_int_le_iff)
    then have "of_int (rne (x / 2 powi ky)) * (2::rat) powi ky \<le> of_int (rne (y / 2 powi ky)) * 2 powi ky"
      using qp by (intro mult_right_mono) simp_all
    then show ?thesis unfolding rounded_def qx qy True .
  next
    case False
    with k have lt: "kx < ky" by simp
    then have ky': "ky = ilog2 y - 52" and ex: "ilog2 x + 1 \<le> ilog2 y"
      by (auto simp: kx_def ky_def max_def split: if_splits)
    have "x < 2 powi (ilog2 x + 1)" using assms(1) by (rule ilog2_gt)
    also have "(2::rat) powi (ilog2 x + 1) \<le> 2 powi (ilog2 y)"
      using ex by (intro power_int_increasing) simp_all
    finally have "x \<le> 2 powi (ilog2 y)" by simp
    moreover have "max (ilog2 x - 52) (- 1074) \<le> ilog2 y" using lt ky' by (simp add: kx_def)
    ultimately have "rounded x \<le> 2 powi (ilog2 y)" using assms(1) by (intro rounded_le_powi)
    also have "2 powi (ilog2 y) \<le> rounded y"
      using y ilog2_le [OF y] ky' by (intro rounded_ge_powi) (simp_all add: ky_def)
    finally show ?thesis .
  qed
qed

lemma rounded_mono: assumes "x \<le> y" shows "rounded x \<le> rounded y"
proof -
  consider "0 < x" | "x \<le> 0" "0 \<le> y" | "y < 0" by linarith
  then show ?thesis
  proof cases
    case 1
    then show ?thesis using assms by (rule rounded_mono_pos)
  next
    case 2
    have "rounded x = - rounded (- x)" by (simp add: rounded_minus)
    moreover have "0 \<le> rounded (- x)" using 2 by (intro rounded_nonneg) simp
    moreover have "0 \<le> rounded y" using 2 by (intro rounded_nonneg)
    ultimately show ?thesis by simp
  next
    case 3
    then have "rounded (- y) \<le> rounded (- x)" using assms by (intro rounded_mono_pos) simp_all
    then show ?thesis by (simp add: rounded_minus)
  qed
qed

lemma overflow_alt:
  "overflow a = (if 2 powi 1024 \<le> a then PInf else if a \<le> - (2 powi 1024) then NInf else Fin a)"
proof -
  have t: "(0::rat) < 2 powi 1024" by (rule zero_less_power_int) simp
  consider "0 < a" | "a = 0" | "a < 0" by linarith
  then show ?thesis
  proof cases
    case 1
    then show ?thesis using ilog2_ge_iff [of a 1024] t by (auto simp: overflow_def)
  next
    case 2
    have "ilog2 0 = 0" by (simp add: ilog2_def bitlen_alt_def)
    then show ?thesis using 2 t by (auto simp: overflow_def)
  next
    case 3
    then show ?thesis using ilog2_ge_iff [of "- a" 1024] t by (auto simp: overflow_def)
  qed
qed

lemma overflow_mono: assumes "a \<le> b" shows "num_le (overflow a) (overflow b)"
proof -
  have t: "(0::rat) < 2 powi 1024" by (rule zero_less_power_int) simp
  show ?thesis unfolding overflow_alt using assms t by auto
qed

lemma fl_overflow: "fl x = overflow (rounded x)"
proof (cases "x = 0")
  case True
  have "ilog2 0 = 0" by (simp add: ilog2_def bitlen_alt_def)
  then show ?thesis using True by (simp add: fl_def rounded_0 overflow_def)
next
  case False
  then show ?thesis by (simp add: fl_def)
qed

lemma fl_mono: "x \<le> y \<Longrightarrow> num_le (fl x) (fl y)"
  unfolding fl_overflow by (intro overflow_mono rounded_mono)

lemma fl_not_NaN: "fl x \<noteq> NaN"
  by (simp add: fl_overflow overflow_def)

section \<open>Cumulative series\<close>

lemma length_cumulate: "length (cumulate c ps) = length ps"
  by (induction ps arbitrary: c) (simp_all add: Let_def)

lemma dt_cumulate: "map dt (cumulate c ps) = map (\<lambda>s. Date (raw_dt s)) ps"
  by (induction ps arbitrary: c) (simp_all add: Let_def)

lemma el_total_cumulate: "map el_total (cumulate c ps) = map step_of ps"
  by (induction ps arbitrary: c) (simp_all add: Let_def)

lemma cum_cumulate:
  "map cum (cumulate c ps) =
     map (\<lambda>i. foldl num_add c (map step_of (take (Suc i) ps))) [0..<length ps]"
proof (induction ps arbitrary: c)
  case Nil
  show ?case by simp
next
  case (Cons s ss)
  have "[0..<length (s # ss)] = 0 # map Suc [0..<length ss]"
    by (simp add: upt_conv_Cons map_Suc_upt del: upt_Suc)
  then show ?case
    using Cons.IH [of "num_add c (step_of s)"] by (simp add: Let_def comp_def del: upt_Suc)
qed

lemma cumulate_example:
  "map cum (cumulate (Fin 0) (raw_of_steps [100, 200, 50])) = [Fin 100, Fin 300, Fin 350]"
  by code_simp

text \<open>
  C3. The derived series has the length and the order of the raw series (the timestamps
  and the step values are those of the raw points, in order), and the \<^verbatim>\<open>cum\<close> field of
  point \<open>i\<close> is the sum, from zero and in series order with JavaScript's addition, of the
  step values of points \<open>0\<close> to \<open>i\<close>. Steps 100, 200, 50 give 100, 300, 350.
\<close>

theorem C3_cumulative_series:
  "length (derive_series (Some ps)) = length ps
   \<and> map dt (derive_series (Some ps)) = map (\<lambda>s. Date (raw_dt s)) ps
   \<and> map el_total (derive_series (Some ps)) = map step_of ps
   \<and> map cum (derive_series (Some ps)) =
       map (\<lambda>i. foldl num_add (Fin 0) (map step_of (take (Suc i) ps))) [0..<length ps]
   \<and> derive_series None = []
   \<and> map cum (derive_series (Some (raw_of_steps [100, 200, 50]))) = [Fin 100, Fin 300, Fin 350]"
  unfolding derive_series_def option.case
  by (intro conjI length_cumulate dt_cumulate el_total_cumulate cum_cumulate
      cumulate_example cumulate.simps(1))

section \<open>Ranking and suggestions\<close>

lemma is_double_0: "is_double 0"
  by (simp add: is_double_def fl_def)

lemma num_less_neq: "num_less a b \<Longrightarrow> a \<noteq> b"
  by (cases a; cases b) auto

lemma not_num_less: "a \<noteq> NaN \<Longrightarrow> b \<noteq> NaN \<Longrightarrow> \<not> num_less a b \<longleftrightarrow> num_le b a"
  by (cases a; cases b) auto

lemma num_le_trans: "num_le a b \<Longrightarrow> num_le b c \<Longrightarrow> num_le a c"
  by (cases a; cases b; cases c) auto

lemma num_less_imp_le: "num_less a b \<Longrightarrow> num_le a b"
  by (cases a; cases b) auto

lemma num_sub_pos_iff:
  assumes "wf_num a" "wf_num b" "a \<noteq> NaN" "b \<noteq> NaN"
  shows "num_less (Fin 0) (num_sub b a) \<longleftrightarrow> num_less a b"
proof (cases a; cases b)
  fix x y assume "a = Fin x" "b = Fin y"
  then show ?thesis using assms fl_diff_pos_iff [of x y] by (simp add: num_sub_def)
qed (use assms in \<open>auto simp: num_sub_def\<close>)

lemma loss_not_NaN: "loss c \<noteq> NaN"
  by (auto simp: loss_def or_num_def truthy_def split: option.splits)

lemma wf_loss: "wf_county c \<Longrightarrow> wf_num (loss c)"
  by (auto simp: loss_def or_num_def wf_county_def is_double_0 split: option.splits)

lemma by_loss_pos_iff:
  "wf_county a \<Longrightarrow> wf_county b \<Longrightarrow> num_less (Fin 0) (by_loss a b) \<longleftrightarrow> num_less (loss a) (loss b)"
  unfolding by_loss_def by (intro num_sub_pos_iff wf_loss loss_not_NaN)

lemma mset_insort_cmp: "mset (insort_cmp f x ys) = add_mset x (mset ys)"
  by (induction ys) simp_all

lemma mset_sort_cmp: "mset (sort_cmp f xs) = mset xs"
  unfolding sort_cmp_def by (induction xs) (simp_all add: mset_insort_cmp)

lemma set_sort_cmp: "set (sort_cmp f xs) = set xs"
  using mset_sort_cmp [of f xs] by (metis set_mset_mset)

lemma set_insort_cmp: "set (insort_cmp f x ys) = insert x (set ys)"
  using mset_insort_cmp [of f x ys] by (metis set_mset_mset set_mset_add_mset_insert)

lemma sorted_insort_by_loss:
  assumes "wf_county x" "\<forall>y\<in>set ys. wf_county y"
    and "sorted_wrt (\<lambda>a b. num_le (loss b) (loss a)) ys"
  shows "sorted_wrt (\<lambda>a b. num_le (loss b) (loss a)) (insort_cmp by_loss x ys)"
  using assms(2,3)
proof (induction ys)
  case Nil
  show ?case by simp
next
  case (Cons y ys)
  show ?case
  proof (cases "num_less (Fin 0) (by_loss x y)")
    case True
    then have "num_less (loss x) (loss y)" using by_loss_pos_iff assms(1) Cons.prems(1) by simp
    then have "num_le (loss x) (loss y)" by (rule num_less_imp_le)
    then show ?thesis using True Cons by (auto simp: set_insort_cmp)
  next
    case False
    then have "\<not> num_less (loss x) (loss y)" using by_loss_pos_iff assms(1) Cons.prems(1) by simp
    then have xy: "num_le (loss y) (loss x)" using not_num_less loss_not_NaN by blast
    have "\<forall>z\<in>set ys. num_le (loss z) (loss x)"
      using Cons.prems(2) xy num_le_trans by fastforce
    then show ?thesis using False Cons.prems(2) xy by simp
  qed
qed

lemma sorted_sort_by_loss:
  "\<forall>c\<in>set cs. wf_county c \<Longrightarrow> sorted_wrt (\<lambda>a b. num_le (loss b) (loss a)) (sort_cmp by_loss cs)"
proof (induction cs)
  case Nil
  show ?case by (simp add: sort_cmp_def)
next
  case (Cons c cs)
  have "sorted_wrt (\<lambda>a b. num_le (loss b) (loss a)) (insort_cmp by_loss c (sort_cmp by_loss cs))"
    using Cons by (intro sorted_insort_by_loss) (simp_all add: set_sort_cmp)
  then show ?case by (simp add: sort_cmp_def)
qed

lemma filter_insort_by_loss:
  assumes "wf_county x" "\<forall>y\<in>set ys. wf_county y"
  shows "filter (\<lambda>c. loss c = v) (insort_cmp by_loss x ys) = filter (\<lambda>c. loss c = v) (x # ys)"
  using assms(2)
proof (induction ys)
  case Nil
  show ?case by simp
next
  case (Cons y ys)
  show ?case
  proof (cases "num_less (Fin 0) (by_loss x y)")
    case True
    then have "num_less (loss x) (loss y)" using by_loss_pos_iff assms(1) Cons.prems by simp
    then have "loss x \<noteq> loss y" by (rule num_less_neq)
    then show ?thesis using True Cons by auto
  next
    case False
    then show ?thesis by simp
  qed
qed

lemma filter_sort_by_loss:
  "\<forall>c\<in>set cs. wf_county c \<Longrightarrow>
     filter (\<lambda>c. loss c = v) (sort_cmp by_loss cs) = filter (\<lambda>c. loss c = v) cs"
proof (induction cs)
  case Nil
  show ?case by (simp add: sort_cmp_def)
next
  case (Cons c cs)
  have "filter (\<lambda>c. loss c = v) (insort_cmp by_loss c (sort_cmp by_loss cs))
      = filter (\<lambda>c. loss c = v) (c # sort_cmp by_loss cs)"
    using Cons.prems by (intro filter_insort_by_loss) (simp_all add: set_sort_cmp)
  then show ?case using Cons by (simp add: sort_cmp_def)
qed

lemma includes_sublist: "includes_str s t \<longleftrightarrow> sublist t s"
  by (induction s) (auto simp: sublist_Cons_right)

lemma trim_ws: assumes "\<forall>c\<in>set q. is_ws c" shows "trim q = []"
proof -
  have d: "dropWhile is_ws q = []" using assms by (simp add: dropWhile_eq_Nil_conv)
  show ?thesis by (simp only: trim_def d rev.simps dropWhile.simps)
qed


text \<open>
  C5. For a county list whose loss values are binary64 numbers, the ranked list
  \<^verbatim>\<open>topSorted\<close> is a permutation of the counties, sorted descending by
  \<^verbatim>\<open>el_total_sum\<close> (a missing value counts as 0), and the counties of any one loss value
  appear in their original relative order. \<open>topSorted\<close> is a function of the list, so
  repeated computations on the same input agree.
\<close>

theorem C5_ranked_list:
  assumes "\<forall>c\<in>set cs. wf_county c"
  shows "mset (topSorted (Some \<lparr>run = r, counties = Some cs\<rparr>)) = mset cs
    \<and> sorted_wrt (\<lambda>a b. num_le (loss b) (loss a)) (topSorted (Some \<lparr>run = r, counties = Some cs\<rparr>))
    \<and> (\<forall>v. filter (\<lambda>c. loss c = v) (topSorted (Some \<lparr>run = r, counties = Some cs\<rparr>))
           = filter (\<lambda>c. loss c = v) cs)"
proof -
  have t: "topSorted (Some \<lparr>run = r, counties = Some cs\<rparr>) = sort_cmp by_loss cs"
    by (simp add: topSorted_def counties_of_def)
  show ?thesis unfolding t
    using mset_sort_cmp [of by_loss cs] sorted_sort_by_loss [OF assms] filter_sort_by_loss [OF assms]
    by blast
qed

theorem C5_ranked_list_witness:
  "list_all wf_county ex_counties
   \<and> mset (topSorted ex_meta) = mset ex_counties
   \<and> sorted_wrt (\<lambda>a b. num_le (loss b) (loss a)) (topSorted ex_meta)
   \<and> (\<forall>v. filter (\<lambda>c. loss c = v) (topSorted ex_meta) = filter (\<lambda>c. loss c = v) ex_counties)
   \<and> map fips (topSorted ex_meta) = [''48201'', ''48093'', ''48085'', ''48089'', ''48097'', ''48083'']"
proof -
  have h: "\<forall>c\<in>set ex_counties. wf_county c" by code_simp
  have e: "map fips (topSorted ex_meta) = [''48201'', ''48093'', ''48085'', ''48089'', ''48097'', ''48083'']"
    by code_simp
  show ?thesis
    using h e C5_ranked_list [OF h, of "Some ''run_dt=20240101T000000Z''"]
    unfolding ex_meta_def list_all_iff by blast
qed

lemma suggestions_Some:
  "suggestions q (Some \<lparr>run = r, counties = Some cs\<rparr>) =
     (if trim q = [] then []
      else take 3 (sort_cmp by_loss
             (filter (\<lambda>c. includes_str (toLowerCase (name_or_empty c)) (toLowerCase (trim q))) cs)))"
  by (simp add: suggestions_def counties_of_def)

lemma sorted_wrt_take: "sorted_wrt P xs \<Longrightarrow> sorted_wrt P (take n xs)"
  by (metis append_take_drop_id sorted_wrt_append)

text \<open>
  C4 (amended). A query that is empty or consists of white space yields no suggestion.
  For every query there are at most 3 suggestions, each a county of the list whose
  lower-cased name contains the lower-cased trimmed query, sorted descending by
  \<^verbatim>\<open>el_total_sum\<close>.
\<close>

theorem C4_suggestions:
  assumes "\<forall>c\<in>set cs. wf_county c"
  shows "((\<forall>ch\<in>set q. is_ws ch) \<longrightarrow> suggestions q (Some \<lparr>run = r, counties = Some cs\<rparr>) = [])
    \<and> length (suggestions q (Some \<lparr>run = r, counties = Some cs\<rparr>)) \<le> 3
    \<and> (\<forall>c\<in>set (suggestions q (Some \<lparr>run = r, counties = Some cs\<rparr>)).
          c \<in> set cs \<and> sublist (toLowerCase (trim q)) (toLowerCase (name_or_empty c)))
    \<and> sorted_wrt (\<lambda>a b. num_le (loss b) (loss a)) (suggestions q (Some \<lparr>run = r, counties = Some cs\<rparr>))"
proof (intro conjI impI)
  assume "\<forall>ch\<in>set q. is_ws ch"
  then show "suggestions q (Some \<lparr>run = r, counties = Some cs\<rparr>) = []"
    by (simp add: suggestions_Some trim_ws)
next
  show "length (suggestions q (Some \<lparr>run = r, counties = Some cs\<rparr>)) \<le> 3"
    by (simp add: suggestions_Some)
next
  show "\<forall>c\<in>set (suggestions q (Some \<lparr>run = r, counties = Some cs\<rparr>)).
          c \<in> set cs \<and> sublist (toLowerCase (trim q)) (toLowerCase (name_or_empty c))"
  proof
    fix c assume "c \<in> set (suggestions q (Some \<lparr>run = r, counties = Some cs\<rparr>))"
    then have "c \<in> set (sort_cmp by_loss
             (filter (\<lambda>c. includes_str (toLowerCase (name_or_empty c)) (toLowerCase (trim q))) cs))"
      by (auto simp: suggestions_Some split: if_splits dest: in_set_takeD)
    then show "c \<in> set cs \<and> sublist (toLowerCase (trim q)) (toLowerCase (name_or_empty c))"
      by (simp add: set_sort_cmp includes_sublist)
  qed
next
  have "\<forall>c\<in>set (filter (\<lambda>c. includes_str (toLowerCase (name_or_empty c)) (toLowerCase (trim q))) cs).
          wf_county c"
    using assms by simp
  then show "sorted_wrt (\<lambda>a b. num_le (loss b) (loss a)) (suggestions q (Some \<lparr>run = r, counties = Some cs\<rparr>))"
    by (simp add: suggestions_Some sorted_wrt_take sorted_sort_by_loss del: set_filter)
qed

theorem C4_suggestions_witness:
  "list_all wf_county ex_counties
   \<and> list_all is_ws ''  '' \<and> suggestions ''  '' ex_meta = []
   \<and> length (suggestions '' col'' ex_meta) \<le> 3
   \<and> list_all (\<lambda>c. c \<in> set ex_counties
          \<and> sublist (toLowerCase (trim '' col'')) (toLowerCase (name_or_empty c)))
        (suggestions '' col'' ex_meta)
   \<and> sorted_wrt (\<lambda>a b. num_le (loss b) (loss a)) (suggestions '' col'' ex_meta)
   \<and> map fips (suggestions '' col'' ex_meta) = [''48085'', ''48089'', ''48083'']"
proof -
  have h: "\<forall>c\<in>set ex_counties. wf_county c" by code_simp
  have w: "\<forall>ch\<in>set ''  ''. is_ws ch" by code_simp
  have e: "map fips (suggestions '' col'' ex_meta) = [''48085'', ''48089'', ''48083'']"
    by code_simp
  show ?thesis
    using h w e C4_suggestions [OF h, of "''  ''" "Some ''run_dt=20240101T000000Z''"]
      C4_suggestions [OF h, of "'' col''" "Some ''run_dt=20240101T000000Z''"]
    unfolding ex_meta_def list_all_iff by blast
qed

text \<open>
  The query is trimmed before the match: for the query \<open>'' col''\<close> the county Collin
  is suggested, and its name does not contain the query as typed.
\<close>

theorem C4_suggestions_counterexample:
  "map name_or_empty (suggestions '' col'' ex_meta) = [''Collin'', ''Colorado'', ''Coleman'']
   \<and> \<not> includes_str (toLowerCase ''Collin'') (toLowerCase '' col'')"
  by code_simp

section \<open>Requests and responses\<close>

lemma hex_val_digit: "d < 16 \<Longrightarrow> hex_val (hex_digit d) = d"
  by (auto simp: hex_val_def hex_digit_def Let_def)

lemma unpct_pct: "b < 256 \<Longrightarrow> unpct (pct b @ r) = b # unpct r"
  by (simp add: pct_def hex_val_digit)

lemma unpct_plain: "a \<noteq> CHR ''%'' \<Longrightarrow> unpct (a # r) = of_char a # unpct r"
  by (cases r rule: unpct.cases) simp_all

lemma unreserved_ascii: "unreserved c \<Longrightarrow> (of_char c :: nat) < 128 \<and> c \<noteq> CHR ''%''"
  by (auto simp: unreserved_def Let_def)

lemma unpct_encode_unit: "unpct (encode_unit c @ r) = utf8 c @ unpct r"
proof (cases "unreserved c")
  case True
  then show ?thesis using unreserved_ascii [of c]
    by (simp add: encode_unit_def unpct_plain utf8_def)
next
  case False
  have n: "(of_char c :: nat) < 256" by simp
  then have "192 + (of_char c :: nat) div 64 < 256" "128 + (of_char c :: nat) mod 64 < 256"
    by arith+
  then show ?thesis using False n
    by (simp add: encode_unit_def utf8_def Let_def unpct_pct)
qed

lemma unpct_encode: "unpct (encodeURIComponent s) = concat (map utf8 s)"
proof (induction s)
  case Nil
  show ?case by (simp add: encodeURIComponent_def)
next
  case (Cons c s)
  then show ?case using unpct_encode_unit [of c "encodeURIComponent s"]
    by (simp add: encodeURIComponent_def)
qed

lemma utf8_decode_plain: "a < 192 \<Longrightarrow> utf8_decode (a # r) = char_of a # utf8_decode r"
  by (cases r) simp_all

lemma utf8_decode_utf8: "utf8_decode (utf8 c @ bs) = c # utf8_decode bs"
proof (cases "(of_char c :: nat) < 128")
  case True
  then show ?thesis by (simp add: utf8_def utf8_decode_plain)
next
  case False
  have "(of_char c :: nat) div 64 * 64 + of_char c mod 64 = of_char c" by simp
  then show ?thesis using False by (simp add: utf8_def Let_def)
qed

lemma decode_encode: "decodeURIComponent (encodeURIComponent s) = s"
  unfolding decodeURIComponent_def unpct_encode
  by (induction s) (simp_all add: utf8_decode_utf8)



lemma runId_step: "runId (app (step api w e)) = runId (app w)"
  by (cases e)
    (auto simp: loadCounty_start_def loadCounty_settled_def Let_def split: response.splits option.splits prod.splits)

lemma requested_step:
  "requested (step api w e) =
     requested w @ map (\<lambda>a. series_url api (runId (app w)) (fst a)) (activations [e])"
  by (cases e) (auto simp: loadCounty_start_def Let_def split: prod.splits)

lemma activations_append: "activations (xs @ ys) = activations xs @ activations ys"
  by (induction xs rule: activations.induct) simp_all

lemma runId_run_events: "runId (app (run_events api w evs)) = runId (app w)"
  unfolding run_events_def by (induction evs arbitrary: w) (simp_all add: runId_step)

lemma requested_run_events:
  "requested (run_events api w evs) =
     requested w @ map (\<lambda>a. series_url api (runId (app w)) (fst a)) (activations evs)"
  unfolding run_events_def
proof (induction evs arbitrary: w)
  case Nil
  show ?case by simp
next
  case (Cons e evs)
  have "activations (e # evs) = activations [e] @ activations evs"
    using activations_append [of "[e]" evs] by simp
  then show ?case
    using Cons.IH [of "step api w e"] by (simp add: runId_step requested_step)
qed

text \<open>
  C2. In a session whose county list loaded with the non-empty run identifier \<open>r\<close>, the
  stored run identifier is \<open>r\<close> after every sequence of activations and responses, and the
  URLs requested by that sequence are, activation by activation, the county URL followed
  by \<^verbatim>\<open>&run=\<close> and the percent-encoded \<open>r\<close>, from which decoding gives \<open>r\<close> back.
\<close>

theorem C2_run_pinned:
  assumes "run d = Some r" and "r \<noteq> []"
  shows "runId (counties_loaded True (Resolved (Some d)) s) = Some r
    \<and> runId (app (run_events api \<lparr>app = counties_loaded True (Resolved (Some d)) s, in_flight = p, requested = []\<rparr> evs)) = Some r
    \<and> requested (run_events api \<lparr>app = counties_loaded True (Resolved (Some d)) s, in_flight = p, requested = []\<rparr> evs) =
        map (\<lambda>a. api @ ''/loss/county?fips='' @ fst a @ ''&run='' @ encodeURIComponent r)
          (activations evs)
    \<and> decodeURIComponent (encodeURIComponent r) = r"
proof -
  have r: "runId (counties_loaded True (Resolved (Some d)) s) = Some r"
    using assms by (simp add: counties_loaded_def run_or_null_def)
  show ?thesis
    using assms(2) r
    by (simp add: runId_run_events requested_run_events series_url_def decode_encode)
qed

theorem C2_run_pinned_witness:
  "run ex_response = Some ''run_dt=20240101T000000Z''
   \<and> ''run_dt=20240101T000000Z'' \<noteq> []
   \<and> runId (app (run_events ex_api (new_session (counties_loaded True (Resolved (Some ex_response)) initial_state))
        [Activate ''48085'' ''Collin'', Settle 0 Rejected, Activate ''48201'' ''Harris''])) =
       Some ''run_dt=20240101T000000Z''
   \<and> requested (run_events ex_api (new_session (counties_loaded True (Resolved (Some ex_response)) initial_state))
        [Activate ''48085'' ''Collin'', Settle 0 Rejected, Activate ''48201'' ''Harris'']) =
       [''https://api.example/loss/county?fips=48085&run=run_dt%3D20240101T000000Z'',
        ''https://api.example/loss/county?fips=48201&run=run_dt%3D20240101T000000Z'']"
proof -
  have h: "run ex_response = Some ''run_dt=20240101T000000Z''" by (simp add: ex_response_def)
  have n: "''run_dt=20240101T000000Z'' \<noteq> []" by simp
  have e: "encodeURIComponent ''run_dt=20240101T000000Z'' = ''run_dt%3D20240101T000000Z''"
    by code_simp
  show ?thesis
    using h C2_run_pinned [OF h n, of initial_state ex_api "[]"
        "[Activate ''48085'' ''Collin'', Settle 0 Rejected, Activate ''48201'' ''Harris'']"]
    by (simp add: e ex_api_def new_session_def)
qed

text \<open>
  C10. When the \<^verbatim>\<open>run\<close> field of the county list is missing, \<^verbatim>\<open>null\<close> or the empty
  string, the stored run identifier is \<^verbatim>\<open>null\<close> and stays so, and every URL requested
  afterwards ends with the \<^verbatim>\<open>fips\<close> value: it has no \<^verbatim>\<open>run\<close> parameter.
\<close>

theorem C10_no_run:
  assumes "run m = None \<or> run m = Some []"
  shows "runId (counties_loaded True (Resolved (Some m)) s) = None
    \<and> runId (app (run_events api \<lparr>app = counties_loaded True (Resolved (Some m)) s, in_flight = p, requested = []\<rparr> evs)) = None
    \<and> requested (run_events api \<lparr>app = counties_loaded True (Resolved (Some m)) s, in_flight = p, requested = []\<rparr> evs) =
        map (\<lambda>a. api @ ''/loss/county?fips='' @ fst a) (activations evs)"
proof -
  have r: "runId (counties_loaded True (Resolved (Some m)) s) = None"
    using assms by (auto simp: counties_loaded_def run_or_null_def)
  show ?thesis
    using r
    by (simp add: runId_run_events requested_run_events series_url_def)
qed

theorem C10_no_run_witness:
  "run (ex_response\<lparr>run := Some []\<rparr>) = Some []
   \<and> runId (counties_loaded True (Resolved (Some (ex_response\<lparr>run := Some []\<rparr>))) initial_state) = None
   \<and> requested (run_events ex_api
        (new_session (counties_loaded True (Resolved (Some (ex_response\<lparr>run := Some []\<rparr>))) initial_state))
        [Activate ''48085'' ''Collin'', Settle 0 Rejected, Activate ''48201'' ''Harris'']) =
       [''https://api.example/loss/county?fips=48085'', ''https://api.example/loss/county?fips=48201'']
   \<and> run (ex_response\<lparr>run := None\<rparr>) = None
   \<and> requested (run_events ex_api
        (new_session (counties_loaded True (Resolved (Some (ex_response\<lparr>run := None\<rparr>))) initial_state))
        [Activate ''48085'' ''Collin'']) =
       [''https://api.example/loss/county?fips=48085'']"
proof -
  have h1: "run (ex_response\<lparr>run := Some []\<rparr>) = None \<or> run (ex_response\<lparr>run := Some []\<rparr>) = Some []"
    by simp
  have h2: "run (ex_response\<lparr>run := None\<rparr>) = None \<or> run (ex_response\<lparr>run := None\<rparr>) = Some []"
    by simp
  show ?thesis
    using C10_no_run [OF h1, of initial_state ex_api "[]"
        "[Activate ''48085'' ''Collin'', Settle 0 Rejected, Activate ''48201'' ''Harris'']"]
      C10_no_run [OF h2, of initial_state ex_api "[]" "[Activate ''48085'' ''Collin'']"]
    by (simp add: ex_api_def new_session_def)
qed

lemma settled_ok:
  "loadCounty_settled fp nm (Resolved (Some b)) s = s\<lparr>series := Some (derive_series (body_series b))\<rparr>"
  by (simp add: loadCounty_settled_def)

lemma settled_failed:
  "loadCounty_settled fp nm Rejected s = s\<lparr>error := no_timeseries fp nm\<rparr>"
  by (simp add: loadCounty_settled_def)

lemma selected_settled: "selected (loadCounty_settled fp nm r s) = selected s"
  by (simp add: loadCounty_settled_def split: response.splits option.splits)

lemma two_activations:
  "run_events api (new_session s) [Activate fa na, Activate fb nb] =
     \<lparr>app = s\<lparr>selected := Some (fb, nb), series := None, error := []\<rparr>,
      in_flight = [(fa, na), (fb, nb)],
      requested = [series_url api (runId s) fa, series_url api (runId s) fb]\<rparr>"
  by (simp add: run_events_def new_session_def loadCounty_start_def)

text \<open>
  C1 (amended). After the activation of county A and then of county B, the selection is B
  whatever arrives. Every response is committed when it arrives, without a check against
  the selection: a resolved response replaces the series by its own derived series and a
  rejected one replaces the error message by the message of its own county. So after both
  responses the series is that of the resolved response that arrived last: the one of B
  when the responses arrive in the order of the requests, the one of A when the response
  of A arrives after that of B.
\<close>

theorem C1_last_response_wins:
  "selected (app (run_events api (new_session s)
      [Activate fa na, Activate fb nb, Settle 0 ra, Settle 0 rb])) = Some (fb, nb)
   \<and> selected (app (run_events api (new_session s)
      [Activate fa na, Activate fb nb, Settle 1 rb, Settle 0 ra])) = Some (fb, nb)
   \<and> series (app (run_events api (new_session s)
      [Activate fa na, Activate fb nb, Settle 0 ra, Settle 0 (Resolved (Some bb))])) =
       Some (derive_series (body_series bb))
   \<and> series (app (run_events api (new_session s)
      [Activate fa na, Activate fb nb, Settle 1 rb, Settle 0 (Resolved (Some ba))])) =
       Some (derive_series (body_series ba))
   \<and> error (app (run_events api (new_session s)
      [Activate fa na, Activate fb nb, Settle 0 ra, Settle 0 Rejected])) = no_timeseries fb nb
   \<and> error (app (run_events api (new_session s)
      [Activate fa na, Activate fb nb, Settle 1 rb, Settle 0 Rejected])) = no_timeseries fa na
   \<and> series (app (run_events api (new_session s)
      [Activate fa na, Activate fb nb, Settle 0 (Resolved (Some ba)), Settle 0 Rejected])) =
       Some (derive_series (body_series ba))"
proof -
  have f: "\<And>w e es. run_events api w (e # es) = run_events api (step api w e) es"
    by (simp add: run_events_def)
  have a: "run_events api (new_session s) [Activate fa na, Activate fb nb, e1, e2] =
      run_events api (run_events api (new_session s) [Activate fa na, Activate fb nb]) [e1, e2]"
    for e1 e2 by (simp add: run_events_def)
  show ?thesis
    unfolding a two_activations
    by (simp add: run_events_def drop_nth_def selected_settled settled_ok settled_failed)
qed

text \<open>
  The response of the superseded request for Collin arrives after the one for Harris:
  Harris stays selected and the series shown is the one of Collin.
\<close>

theorem C1_stale_response_counterexample:
  "selected (app (run_events ex_api (new_session initial_state)
      [Activate ''48085'' ''Collin'', Activate ''48201'' ''Harris'',
       Settle 1 (Resolved (Some ex_body_B)), Settle 0 (Resolved (Some ex_body_A))])) =
     Some (''48201'', ''Harris'')
   \<and> map cum (case series (app (run_events ex_api (new_session initial_state)
      [Activate ''48085'' ''Collin'', Activate ''48201'' ''Harris'',
       Settle 1 (Resolved (Some ex_body_B)), Settle 0 (Resolved (Some ex_body_A))])) of
         None \<Rightarrow> [] | Some ps \<Rightarrow> ps) = [Fin 1, Fin 3]
   \<and> map cum (derive_series (body_series ex_body_A)) = [Fin 1, Fin 3]
   \<and> map cum (derive_series (body_series ex_body_B)) = [Fin 100, Fin 300, Fin 350]"
  by code_simp



section \<open>The colour scale\<close>

lemma fl_0: "fl 0 = Fin 0" by (simp add: fl_def)
lemma fl_1: "fl 1 = Fin 1" by code_simp

lemma or_num_not_NaN: "d \<noteq> NaN \<Longrightarrow> or_num v d \<noteq> NaN"
  by (auto simp: or_num_def truthy_def split: option.splits)

lemma num_le_refl: "a \<noteq> NaN \<Longrightarrow> num_le a a"
  by (cases a) auto

lemma num_le_total: "a \<noteq> NaN \<Longrightarrow> b \<noteq> NaN \<Longrightarrow> num_le a b \<or> num_le b a"
  by (cases a; cases b) auto

lemma num_le_antisym: "num_le a b \<Longrightarrow> num_le b a \<Longrightarrow> a = b"
  by (cases a; cases b) auto

lemma clamp01_low: "num_le q (Fin 0) \<Longrightarrow> clamp01 q = Fin 0"
  by (cases q) (auto simp: clamp01_def Math_max_def Math_min_def)

lemma clamp01_high: "num_le (Fin 1) q \<Longrightarrow> clamp01 q = Fin 1"
  by (cases q) (auto simp: clamp01_def Math_max_def Math_min_def)

lemma clamp01_mid: "num_le (Fin 0) q \<Longrightarrow> num_le q (Fin 1) \<Longrightarrow> clamp01 q = q"
  by (cases q) (auto simp: clamp01_def Math_max_def Math_min_def)

lemma clamp01_range: "q \<noteq> NaN \<Longrightarrow> num_le (Fin 0) (clamp01 q) \<and> num_le (clamp01 q) (Fin 1)"
  by (cases q) (auto simp: clamp01_def Math_max_def Math_min_def)

lemma div_pos_not_NaN: "a \<noteq> NaN \<Longrightarrow> 0 < m \<Longrightarrow> num_div a (Fin m) \<noteq> NaN"
  by (cases a) (auto simp: fl_not_NaN)

lemma div_pos_low: assumes "num_le a (Fin 0)" "0 < m" shows "num_le (num_div a (Fin m)) (Fin 0)"
proof (cases a)
  case (Fin x)
  then have "x / m \<le> 0" using assms by (simp add: divide_le_0_iff)
  then have "num_le (fl (x / m)) (fl 0)" by (rule fl_mono)
  then show ?thesis using Fin assms by (simp add: fl_0)
qed (use assms in auto)

lemma div_pos_high: assumes "num_le (Fin m) a" "0 < m" shows "num_le (Fin 1) (num_div a (Fin m))"
proof (cases a)
  case (Fin x)
  then have "1 \<le> x / m" using assms by simp
  then have "num_le (fl 1) (fl (x / m))" by (rule fl_mono)
  then show ?thesis using Fin assms by (simp add: fl_1)
qed (use assms in auto)

lemma div_pos_mid:
  assumes "0 \<le> x" "x \<le> m" "0 < m"
  shows "num_le (Fin 0) (num_div (Fin x) (Fin m)) \<and> num_le (num_div (Fin x) (Fin m)) (Fin 1)"
proof -
  have "0 \<le> x / m" "x / m \<le> 1" using assms by simp_all
  then have "num_le (fl 0) (fl (x / m))" "num_le (fl (x / m)) (fl 1)" by (auto intro: fl_mono)
  then show ?thesis using assms by (simp add: fl_0 fl_1)
qed

lemma light: "mix (Fin 0) 219 30 = Fin 219" "mix (Fin 0) 234 64 = Fin 234" "mix (Fin 0) 254 175 = Fin 254"
  by code_simp+

lemma dark: "mix (Fin 1) 219 30 = Fin 30" "mix (Fin 1) 234 64 = Fin 64" "mix (Fin 1) 254 175 = Fin 175"
  by code_simp+

lemma channel_text:
  "numberToString (Fin 219) = ''219''" "numberToString (Fin 234) = ''234''"
  "numberToString (Fin 254) = ''254''" "numberToString (Fin 30) = ''30''"
  "numberToString (Fin 64) = ''64''" "numberToString (Fin 175) = ''175''"
  by code_simp+

lemma shade_t_clamp: "shade_t v mx = clamp01 (num_div (or_num v (Fin 0)) (or_num mx (Fin 1)))"
  by (simp add: shade_t_def clamp01_def)

lemma shade_low: "shade_t v mx = Fin 0 \<Longrightarrow> shade v mx = ''rgb(219, 234, 254)''"
  by (simp add: shade_def light channel_text del: numberToString.simps)

lemma shade_high: "shade_t v mx = Fin 1 \<Longrightarrow> shade v mx = ''rgb(30, 64, 175)''"
  by (simp add: shade_def dark channel_text del: numberToString.simps)

text \<open>
  C7 (amended). Let \<open>m\<close> be \<^verbatim>\<open>max\<close>, or 1 when \<^verbatim>\<open>max\<close> is 0 or missing, and let \<open>m\<close>
  be finite and positive; a missing \<^verbatim>\<open>value\<close> counts as 0. Then \<^verbatim>\<open>shade\<close> returns
  \<^verbatim>\<open>rgb(219, 234, 254)\<close> when \<open>value \<le> 0\<close> and \<^verbatim>\<open>rgb(30, 64, 175)\<close> when
  \<open>value \<ge> m\<close>. In every case the parameter \<open>t\<close> lies in \<open>[0, 1]\<close>, it is the quotient
  \<open>value / m\<close> (as JavaScript computes it) when \<open>0 \<le> value \<le> m\<close>, and each channel is
  \<^verbatim>\<open>Math.round(a + (b - a) * t)\<close> for the channels \<open>a\<close> and \<open>b\<close> of the two reference
  colours.
\<close>

theorem C7_shade:
  assumes "or_num mx (Fin 1) = Fin m" and "0 < m"
  shows "(num_le (or_num v (Fin 0)) (Fin 0) \<longrightarrow> shade v mx = ''rgb(219, 234, 254)'')
    \<and> (num_le (Fin m) (or_num v (Fin 0)) \<longrightarrow> shade v mx = ''rgb(30, 64, 175)'')
    \<and> (\<forall>x. or_num v (Fin 0) = Fin x \<and> 0 \<le> x \<and> x \<le> m \<longrightarrow> shade_t v mx = fl (x / m))
    \<and> num_le (Fin 0) (shade_t v mx) \<and> num_le (shade_t v mx) (Fin 1)
    \<and> shade v mx = ''rgb('' @ numberToString (mix (shade_t v mx) 219 30)
         @ '', '' @ numberToString (mix (shade_t v mx) 234 64)
         @ '', '' @ numberToString (mix (shade_t v mx) 254 175) @ '')''"
proof -
  have t: "shade_t v mx = clamp01 (num_div (or_num v (Fin 0)) (Fin m))"
    by (simp add: shade_t_clamp assms(1))
  have n: "or_num v (Fin 0) \<noteq> NaN" by (rule or_num_not_NaN) simp
  have 1: "shade v mx = ''rgb(219, 234, 254)''" if "num_le (or_num v (Fin 0)) (Fin 0)"
    using that assms(2) by (intro shade_low) (simp add: t clamp01_low div_pos_low)
  have 2: "shade v mx = ''rgb(30, 64, 175)''" if "num_le (Fin m) (or_num v (Fin 0))"
    using that assms(2) by (intro shade_high) (simp add: t clamp01_high div_pos_high)
  have 3: "shade_t v mx = fl (x / m)" if "or_num v (Fin 0) = Fin x \<and> 0 \<le> x \<and> x \<le> m" for x
  proof -
    have "clamp01 (num_div (Fin x) (Fin m)) = num_div (Fin x) (Fin m)"
      using that assms(2) div_pos_mid [of x m] by (intro clamp01_mid) simp_all
    then show ?thesis using that assms(2) by (simp add: t)
  qed
  have 4: "num_le (Fin 0) (shade_t v mx) \<and> num_le (shade_t v mx) (Fin 1)"
    unfolding t using n assms(2) by (intro clamp01_range div_pos_not_NaN)
  have 5: "shade v mx = ''rgb('' @ numberToString (mix (shade_t v mx) 219 30)
         @ '', '' @ numberToString (mix (shade_t v mx) 234 64)
         @ '', '' @ numberToString (mix (shade_t v mx) 254 175) @ '')''"
    by (simp add: shade_def Let_def)
  from 1 2 3 4 5 show ?thesis by blast
qed

theorem C7_shade_witness:
  "or_num (Some (Fin 100)) (Fin 1) = Fin 100 \<and> (0::rat) < 100
   \<and> shade (Some (Fin 0)) (Some (Fin 100)) = ''rgb(219, 234, 254)''
   \<and> shade (Some (Fin 250)) (Some (Fin 100)) = ''rgb(30, 64, 175)''
   \<and> shade_t (Some (Fin 50)) (Some (Fin 100)) = Fin (1 / 2)
   \<and> shade (Some (Fin 50)) (Some (Fin 100)) = ''rgb(125, 149, 215)''"
proof -
  have h: "or_num (Some (Fin 100)) (Fin 1) = Fin 100" by (simp add: or_num_def truthy_def)
  have p: "(0::rat) < 100" by simp
  have a: "num_le (or_num (Some (Fin 0)) (Fin 0)) (Fin 0)" by (simp add: or_num_def truthy_def)
  have b: "num_le (Fin 100) (or_num (Some (Fin 250)) (Fin 0))" by (simp add: or_num_def truthy_def)
  have c: "or_num (Some (Fin 50)) (Fin 0) = Fin 50 \<and> (0::rat) \<le> 50 \<and> (50::rat) \<le> 100"
    by (simp add: or_num_def truthy_def)
  have f: "fl (1 / 2) = Fin (1 / 2)" by code_simp
  have m: "mix (Fin (1 / 2)) 219 30 = Fin 125" "mix (Fin (1 / 2)) 234 64 = Fin 149"
    "mix (Fin (1 / 2)) 254 175 = Fin 215" by code_simp+
  have s: "numberToString (Fin 125) = ''125''" "numberToString (Fin 149) = ''149''"
    "numberToString (Fin 215) = ''215''" by code_simp+
  show ?thesis
    using h a b c C7_shade [OF h p, of "Some (Fin 0)"] C7_shade [OF h p, of "Some (Fin 250)"]
      C7_shade [OF h p, of "Some (Fin 50)"]
    by (simp add: f m s del: numberToString.simps)
qed

text \<open>
  For a negative \<^verbatim>\<open>max\<close> the claim does not hold: \<open>value = -1\<close> is at most 0 and at
  least \<open>max = -2\<close>, and \<^verbatim>\<open>shade\<close> returns neither reference colour.
\<close>

theorem C7_shade_counterexample:
  "num_le (Fin (- 1)) (Fin 0) \<and> num_le (Fin (- 2)) (Fin (- 1))
   \<and> shade (Some (Fin (- 1))) (Some (Fin (- 2))) = ''rgb(125, 149, 215)''"
  by code_simp

section \<open>The short currency format\<close>

declare digits.simps [simp del]

declare declen.simps [simp del]

lemma digits_small: "n < 10 \<Longrightarrow> digits n = [digit_char n]"
  by (simp add: digits.simps)

lemma digits_large: "10 \<le> n \<Longrightarrow> digits n = digits (n div 10) @ [digit_char (n mod 10)]"
  by (subst digits.simps) simp

lemma length_digits_pos: "0 < length (digits n)"
  by (subst digits.simps) simp

lemma length_frac_digits: "length (frac_digits f r) = f"
  by (induction f arbitrary: r) simp_all

lemma padded_Suc:
  assumes "0 \<le> r"
  shows "padded (Suc f) r = padded f (r div 10) @ [digit_char (r mod 10)]"
proof (cases "r < 10")
  case True
  have "digit_char 0 = CHR ''0''" by code_simp
  then have z: "digits 0 = ''0''" by (simp add: digits_small)
  have "padded f 0 = replicate (Suc f) CHR ''0''"
    by (cases f) (simp_all add: padded_def z replicate_append_same)
  then show ?thesis using True assms by (simp add: padded_def digits_small replicate_append_same)
next
  case False
  then have d: "digits r = digits (r div 10) @ [digit_char (r mod 10)]" by (simp add: digits_large)
  show ?thesis using length_digits_pos [of "r div 10"]
    by (auto simp: padded_def d Suc_diff_le)
qed

lemma padded_split: "0 \<le> r \<Longrightarrow> padded f r = digits (r div 10 ^ f) @ frac_digits f r"
proof (induction f arbitrary: r)
  case 0
  show ?case by (simp add: padded_def)
next
  case (Suc f)
  have "0 \<le> r div 10" using Suc.prems by simp
  then show ?case using Suc.prems by (simp add: padded_Suc Suc.IH zdiv_zmult2_eq)
qed

lemma toFixed_decimal:
  assumes "0 \<le> x" "x < 10 ^ 21" "f \<noteq> 0"
  shows "toFixed f (Fin x) = decimal f x"
proof -
  define r where "r = \<lfloor>x * 10 ^ f + 1 / 2\<rfloor>"
  have r: "0 \<le> r" using assms(1) by (simp add: r_def)
  have a: "\<bar>x\<bar> = x" "\<not> 10 ^ 21 \<le> \<bar>x\<bar>" "\<not> x < 0" using assms by simp_all
  have "toFixed f (Fin x) =
      take (length (padded f r) - f) (padded f r) @ ''.'' @ drop (length (padded f r) - f) (padded f r)"
    using assms by (simp add: a r_def padded_def Let_def)
  also have "\<dots> = digits (r div 10 ^ f) @ ''.'' @ frac_digits f r"
    using r by (simp add: padded_split length_frac_digits)
  finally show ?thesis by (simp add: decimal_def r_def Let_def)
qed

lemma or_num_Fin: "or_num (Some (Fin x)) (Fin 0) = Fin x"
  by (simp add: or_num_def truthy_def)

lemma fl_bounds:
  assumes "a \<le> x" "x \<le> b" "fl a = Fin a'" "fl b = Fin b'"
  shows "\<exists>q. fl x = Fin q \<and> a' \<le> q \<and> q \<le> b'"
proof -
  have "num_le (Fin a') (fl x)" "num_le (fl x) (Fin b')"
    using fl_mono [OF assms(1)] fl_mono [OF assms(2)] assms(3,4) by simp_all
  then show ?thesis by (cases "fl x") auto
qed

lemma fl_lower:
  assumes "a \<le> x" "fl a = Fin a'"
  shows "fl x = PInf \<or> (\<exists>q. fl x = Fin q \<and> a' \<le> q)"
proof -
  have "num_le (Fin a') (fl x)" using fl_mono [OF assms(1)] assms(2) by simp
  then show ?thesis by (cases "fl x") auto
qed

lemma fl_1000: "fl 1000 = Fin 1000" by code_simp
lemma fl_e20: "fl (10 ^ 20) = Fin (10 ^ 20)" by code_simp
lemma fl_e20': "fl 100000000000000000000 = Fin 100000000000000000000" using fl_e20 by simp

lemma fmt_B:
  "10 ^ 9 \<le> x \<Longrightarrow>
     fmtCurrencyShort loc (Some (Fin x)) = ''$'' @ toFixed 2 (fl (x / 10 ^ 9)) @ ''B''"
  by (simp add: fmtCurrencyShort_def or_num_Fin del: toFixed.simps)

lemma fmt_M:
  "10 ^ 6 \<le> x \<Longrightarrow> x < 10 ^ 9 \<Longrightarrow>
     fmtCurrencyShort loc (Some (Fin x)) = ''$'' @ toFixed 2 (fl (x / 10 ^ 6)) @ ''M''"
  by (simp add: fmtCurrencyShort_def or_num_Fin del: toFixed.simps)

lemma fmt_K:
  "10 ^ 3 \<le> x \<Longrightarrow> x < 10 ^ 6 \<Longrightarrow>
     fmtCurrencyShort loc (Some (Fin x)) = ''$'' @ toFixed 1 (fl (x / 10 ^ 3)) @ ''K''"
  by (simp add: fmtCurrencyShort_def or_num_Fin del: toFixed.simps)

lemma fmt_plain:
  "x < 10 ^ 3 \<Longrightarrow>
     fmtCurrencyShort loc (Some (Fin x)) =
       ''$'' @ loc (- (1 / 2) \<le> x \<and> x < 0) (Fin (of_int \<lfloor>x + 1 / 2\<rfloor>))"
  by (simp add: fmtCurrencyShort_def or_num_Fin)

lemma quotient_K:
  assumes "10 ^ 3 \<le> x" "x < 10 ^ 6"
  shows "\<exists>q. fl (x / 10 ^ 3) = Fin q \<and> 1 \<le> q \<and> q \<le> 1000"
  using assms by (intro fl_bounds [where a = 1 and b = 1000]) (simp_all add: fl_1 fl_1000)

lemma quotient_M:
  assumes "10 ^ 6 \<le> x" "x < 10 ^ 9"
  shows "\<exists>q. fl (x / 10 ^ 6) = Fin q \<and> 1 \<le> q \<and> q \<le> 1000"
  using assms by (intro fl_bounds [where a = 1 and b = 1000]) (simp_all add: fl_1 fl_1000)

lemma quotient_B:
  assumes "10 ^ 9 \<le> x" "x \<le> 10 ^ 29"
  shows "\<exists>q. fl (x / 10 ^ 9) = Fin q \<and> 1 \<le> q \<and> q \<le> 10 ^ 20"
  using assms by (intro fl_bounds [where a = 1 and b = "10 ^ 20"]) (simp_all add: fl_1 fl_e20')

text \<open>
  C6 (amended). \<^verbatim>\<open>fmtCurrencyShort\<close> treats a missing argument and \<open>NaN\<close> as 0. For a
  number \<open>n\<close> it returns, after the dollar sign: for \<open>n \<ge> 1e9\<close> the quotient \<open>n / 1e9\<close>
  (as JavaScript computes it) with two decimals and the suffix B, as long as that
  quotient is below \<open>1e21\<close>, which it is for every \<open>n \<le> 1e29\<close>; a larger quotient is
  written as \<^verbatim>\<open>toFixed\<close> writes such numbers, by the general conversion to a string
  (exponent notation, \<^verbatim>\<open>Infinity\<close>), before the B. For \<open>1e6 \<le> n < 1e9\<close> it is the
  quotient by \<open>1e6\<close> with two decimals and M, for \<open>1e3 \<le> n < 1e6\<close> the quotient by \<open>1e3\<close>
  with one decimal and K, and for every other \<open>n\<close> the text of the locale for the rounded
  integer. In the locale en-US: 999 gives \<^verbatim>\<open>$999\<close>, 1000 gives \<^verbatim>\<open>$1.0K\<close>, 999999 gives
  \<^verbatim>\<open>$1000.0K\<close>, 1e6 gives \<^verbatim>\<open>$1.00M\<close> and 1e9 gives \<^verbatim>\<open>$1.00B\<close>.
\<close>

theorem C6_format:
  "fmtCurrencyShort loc None = fmtCurrencyShort loc (Some (Fin 0))
   \<and> fmtCurrencyShort loc (Some NaN) = fmtCurrencyShort loc (Some (Fin 0))
   \<and> (10 ^ 9 \<le> x \<and> fl (x / 10 ^ 9) = Fin q \<and> q < 10 ^ 21 \<longrightarrow>
        fmtCurrencyShort loc (Some (Fin x)) = ''$'' @ decimal 2 q @ ''B'')
   \<and> (10 ^ 9 \<le> x \<and> x \<le> 10 ^ 29 \<longrightarrow> (\<exists>q. fl (x / 10 ^ 9) = Fin q \<and> q < 10 ^ 21))
   \<and> (10 ^ 9 \<le> x \<and> \<not> (\<exists>q. fl (x / 10 ^ 9) = Fin q \<and> q < 10 ^ 21) \<longrightarrow>
        fmtCurrencyShort loc (Some (Fin x)) = ''$'' @ numberToString (fl (x / 10 ^ 9)) @ ''B'')
   \<and> fmtCurrencyShort loc (Some PInf) = ''$InfinityB''
   \<and> (10 ^ 6 \<le> x \<and> x < 10 ^ 9 \<longrightarrow>
        (\<exists>q. fl (x / 10 ^ 6) = Fin q \<and>
             fmtCurrencyShort loc (Some (Fin x)) = ''$'' @ decimal 2 q @ ''M''))
   \<and> (10 ^ 3 \<le> x \<and> x < 10 ^ 6 \<longrightarrow>
        (\<exists>q. fl (x / 10 ^ 3) = Fin q \<and>
             fmtCurrencyShort loc (Some (Fin x)) = ''$'' @ decimal 1 q @ ''K''))
   \<and> (x < 10 ^ 3 \<longrightarrow>
        fmtCurrencyShort loc (Some (Fin x)) =
          ''$'' @ loc (- (1 / 2) \<le> x \<and> x < 0) (Fin (of_int \<lfloor>x + 1 / 2\<rfloor>)))
   \<and> fmtCurrencyShort loc (Some NInf) = ''$'' @ loc False NInf
   \<and> fmtCurrencyShort en_US (Some (Fin 999)) = ''$999''
   \<and> fmtCurrencyShort en_US (Some (Fin 1000)) = ''$1.0K''
   \<and> fmtCurrencyShort en_US (Some (Fin 999999)) = ''$1000.0K''
   \<and> fmtCurrencyShort en_US (Some (Fin (10 ^ 6))) = ''$1.00M''
   \<and> fmtCurrencyShort en_US (Some (Fin (10 ^ 9))) = ''$1.00B''"
proof -
  have 1: "fmtCurrencyShort loc None = fmtCurrencyShort loc (Some (Fin 0))"
    "fmtCurrencyShort loc (Some NaN) = fmtCurrencyShort loc (Some (Fin 0))"
    by (simp_all add: fmtCurrencyShort_def or_num_def truthy_def)
  have 2: "fmtCurrencyShort loc (Some (Fin x)) = ''$'' @ decimal 2 q @ ''B''"
    if "10 ^ 9 \<le> x \<and> fl (x / 10 ^ 9) = Fin q \<and> q < 10 ^ 21"
  proof -
    have "1 \<le> x / 10 ^ 9" using that by simp
    then have "1 \<le> q" using fl_lower [of 1 "x / 10 ^ 9" 1] that by (auto simp: fl_1)
    then have "toFixed 2 (Fin q) = decimal 2 q" using that by (intro toFixed_decimal) simp_all
    then show ?thesis using that by (simp add: fmt_B del: toFixed.simps)
  qed
  have 3: "\<exists>q. fl (x / 10 ^ 9) = Fin q \<and> q < 10 ^ 21" if h: "10 ^ 9 \<le> x \<and> x \<le> 10 ^ 29"
  proof -
    obtain q where "fl (x / 10 ^ 9) = Fin q" "q \<le> 10 ^ 20" using quotient_B h by blast
    then show ?thesis by (intro exI [of _ q]) simp
  qed
  have 4: "fmtCurrencyShort loc (Some (Fin x)) = ''$'' @ numberToString (fl (x / 10 ^ 9)) @ ''B''"
    if "10 ^ 9 \<le> x \<and> \<not> (\<exists>q. fl (x / 10 ^ 9) = Fin q \<and> q < 10 ^ 21)"
  proof -
    have "1 \<le> x / 10 ^ 9" using that by simp
    then consider "fl (x / 10 ^ 9) = PInf" | q where "fl (x / 10 ^ 9) = Fin q" "1 \<le> q"
      using fl_lower [of 1 "x / 10 ^ 9" 1] by (auto simp: fl_1)
    then have "toFixed 2 (fl (x / 10 ^ 9)) = numberToString (fl (x / 10 ^ 9))"
    proof cases
      case 1
      then show ?thesis by simp
    next
      case 2
      then have "10 ^ 21 \<le> q" using that by auto
      then show ?thesis using 2 by (simp del: numberToString.simps)
    qed
    then show ?thesis using that by (simp add: fmt_B del: toFixed.simps numberToString.simps)
  qed
  have 5: "fmtCurrencyShort loc (Some PInf) = ''$InfinityB''"
    by (simp add: fmtCurrencyShort_def or_num_def truthy_def)
  have 6: "\<exists>q. fl (x / 10 ^ 6) = Fin q \<and> fmtCurrencyShort loc (Some (Fin x)) = ''$'' @ decimal 2 q @ ''M''"
    if h: "10 ^ 6 \<le> x \<and> x < 10 ^ 9"
  proof -
    obtain q where q: "fl (x / 10 ^ 6) = Fin q" "1 \<le> q" "q \<le> 1000" using quotient_M h by blast
    then have "toFixed 2 (Fin q) = decimal 2 q" by (intro toFixed_decimal) simp_all
    then show ?thesis using h q by (intro exI [of _ q]) (simp add: fmt_M del: toFixed.simps)
  qed
  have 7: "\<exists>q. fl (x / 10 ^ 3) = Fin q \<and> fmtCurrencyShort loc (Some (Fin x)) = ''$'' @ decimal 1 q @ ''K''"
    if h: "10 ^ 3 \<le> x \<and> x < 10 ^ 6"
  proof -
    obtain q where q: "fl (x / 10 ^ 3) = Fin q" "1 \<le> q" "q \<le> 1000" using quotient_K h by blast
    then have "toFixed 1 (Fin q) = decimal 1 q" by (intro toFixed_decimal) simp_all
    then show ?thesis using h q by (intro exI [of _ q]) (simp add: fmt_K del: toFixed.simps)
  qed
  have 8: "fmtCurrencyShort loc (Some (Fin x)) =
      ''$'' @ loc (- (1 / 2) \<le> x \<and> x < 0) (Fin (of_int \<lfloor>x + 1 / 2\<rfloor>))" if "x < 10 ^ 3"
    using that by (rule fmt_plain)
  have 9: "fmtCurrencyShort loc (Some NInf) = ''$'' @ loc False NInf"
    by (simp add: fmtCurrencyShort_def or_num_def truthy_def)
  have e: "fmtCurrencyShort en_US (Some (Fin 999)) = ''$999''"
    "fmtCurrencyShort en_US (Some (Fin 1000)) = ''$1.0K''"
    "fmtCurrencyShort en_US (Some (Fin 999999)) = ''$1000.0K''"
    "fmtCurrencyShort en_US (Some (Fin (10 ^ 6))) = ''$1.00M''"
    "fmtCurrencyShort en_US (Some (Fin (10 ^ 9))) = ''$1.00B''"
    by code_simp+
  from 1 2 3 4 5 6 7 8 9 e show ?thesis by blast
qed

text \<open>
  For \<open>n = 1e30\<close> the quotient is \<open>1e21\<close>, which \<^verbatim>\<open>toFixed\<close> writes in exponent
  notation: the text has no two decimals.
\<close>

theorem C6_format_counterexample:
  "num_le (Fin (10 ^ 9)) (Fin (10 ^ 30))
   \<and> fmtCurrencyShort en_US (Some (Fin (10 ^ 30))) = ''$1e+21B''"
  by code_simp


theorem C6_format_witness:
  "(10::rat) ^ 9 \<le> 2500000000 \<and> fl (2500000000 / 10 ^ 9) = Fin (5 / 2) \<and> (5 / 2 :: rat) < 10 ^ 21
   \<and> fmtCurrencyShort en_US (Some (Fin 2500000000)) = ''$2.50B''
   \<and> fmtCurrencyShort en_US (Some (Fin (10 ^ 30))) = ''$1e+21B''
   \<and> fmtCurrencyShort en_US (Some (Fin 1234567)) = ''$1.23M''
   \<and> fmtCurrencyShort en_US (Some (Fin 45678)) = ''$45.7K''
   \<and> fmtCurrencyShort en_US (Some (Fin (- (1234567 / 2)))) = ''$-617,283''
   \<and> fmtCurrencyShort en_US None = ''$0''"
proof -
  have b: "(10::rat) ^ 9 \<le> 2500000000 \<and> fl (2500000000 / 10 ^ 9) = Fin (5 / 2) \<and> (5 / 2 :: rat) < 10 ^ 21"
    by code_simp
  have b': "decimal 2 (5 / 2) = ''2.50''" by code_simp
  have B: "fmtCurrencyShort en_US (Some (Fin 2500000000)) = ''$2.50B''"
    using C6_format [of en_US 2500000000 "5 / 2"] b b' by simp
  have l: "(10::rat) ^ 9 \<le> 10 ^ 30" "fl (10 ^ 30 / 10 ^ 9) = Fin (10 ^ 21)"
    "numberToString (Fin (10 ^ 21)) = ''1e+21''" by code_simp+
  then have "\<not> (\<exists>q. fl (10 ^ 30 / 10 ^ 9) = Fin q \<and> q < 10 ^ 21)" by simp
  then have L: "fmtCurrencyShort en_US (Some (Fin (10 ^ 30))) = ''$1e+21B''"
    using C6_format [of en_US "10 ^ 30"] l by (simp del: numberToString.simps)
  have m: "(10::rat) ^ 6 \<le> 1234567 \<and> (1234567::rat) < 10 ^ 9"
    "case fl (1234567 / 10 ^ 6) of Fin q \<Rightarrow> decimal 2 q = ''1.23'' | _ \<Rightarrow> False" by code_simp+
  have M: "fmtCurrencyShort en_US (Some (Fin 1234567)) = ''$1.23M''"
    using C6_format [of en_US 1234567] m by auto
  have k: "(10::rat) ^ 3 \<le> 45678 \<and> (45678::rat) < 10 ^ 6"
    "case fl (45678 / 10 ^ 3) of Fin q \<Rightarrow> decimal 1 q = ''45.7'' | _ \<Rightarrow> False" by code_simp+
  have K: "fmtCurrencyShort en_US (Some (Fin 45678)) = ''$45.7K''"
    using C6_format [of en_US 45678] k by auto
  have p: "- (1234567 / 2 :: rat) < 10 ^ 3"
    "en_US (- (1 / 2) \<le> - (1234567 / 2 :: rat) \<and> - (1234567 / 2 :: rat) < 0)
       (Fin (of_int \<lfloor>- (1234567 / 2 :: rat) + 1 / 2\<rfloor>)) = ''-617,283''" by code_simp+
  have P: "fmtCurrencyShort en_US (Some (Fin (- (1234567 / 2)))) = ''$-617,283''"
    using C6_format [of en_US "- (1234567 / 2)"] p by simp
  have z: "fmtCurrencyShort en_US (Some (Fin 0)) = ''$0''" by code_simp
  have Z: "fmtCurrencyShort en_US None = ''$0''"
    using C6_format [of en_US] z by simp
  from b B L M K P Z show ?thesis by blast
qed

section \<open>Monotonicity of the short currency format\<close>

lemma digit_value: "0 \<le> d \<Longrightarrow> d < 10 \<Longrightarrow> of_char (digit_char d) - 48 = d"
proof -
  assume a: "0 \<le> d" "d < 10"
  then have "(48 + d) mod 256 = 48 + d" by simp
  then show ?thesis using a by (simp add: digit_char_def of_char_of)
qed

lemma digits_value_snoc: "digits_value (s @ [c]) = 10 * digits_value s + (of_char c - 48)"
  by (simp add: digits_value_def)

lemma digits_value_digits: "0 \<le> n \<Longrightarrow> digits_value (digits n) = n"
proof (induction n rule: digits.induct)
  case (1 n)
  show ?case
  proof (cases "n < 10")
    case True
    then show ?thesis using 1 by (simp add: digits_small digits_value_def digit_value)
  next
    case False
    then have "digits_value (digits (n div 10)) = n div 10" using 1 by simp
    then show ?thesis using False 1(2)
      by (simp add: digits_large digits_value_snoc digit_value)
  qed
qed

lemma digits_value_frac: "0 \<le> r \<Longrightarrow> digits_value (frac_digits f r) = r mod 10 ^ f"
proof (induction f arbitrary: r)
  case 0
  show ?case by (simp add: digits_value_def)
next
  case (Suc f)
  have "0 \<le> r div 10" using Suc.prems by simp
  then have "digits_value (frac_digits f (r div 10)) = r div 10 mod 10 ^ f" by (rule Suc.IH)
  moreover have "r mod (10 * 10 ^ f) = 10 * (r div 10 mod 10 ^ f) + r mod 10"
    by (simp add: zmod_zmult2_eq)
  ultimately show ?case by (simp add: digits_value_snoc digit_value)
qed

lemma digit_char_not_dot: "0 \<le> d \<Longrightarrow> d < 10 \<Longrightarrow> digit_char d \<noteq> CHR ''.''"
proof
  assume a: "0 \<le> d" "d < 10" and e: "digit_char d = CHR ''.''"
  have "of_char (digit_char d) - 48 = d" using a by (rule digit_value)
  moreover have "(of_char CHR ''.'' :: int) = 46" by simp
  ultimately show False using a e by simp
qed

lemma no_dot_digits: "0 \<le> n \<Longrightarrow> CHR ''.'' \<notin> set (digits n)"
proof (induction n rule: digits.induct)
  case (1 n)
  show ?case
  proof (cases "n < 10")
    case True
    then show ?thesis using 1(2) digit_char_not_dot [of n] by (auto simp: digits_small)
  next
    case False
    then have "CHR ''.'' \<notin> set (digits (n div 10))" using 1 by simp
    then show ?thesis using False digit_char_not_dot [of "n mod 10"]
      by (auto simp: digits_large)
  qed
qed

lemma numeral_value_split:
  assumes "CHR ''.'' \<notin> set a"
  shows "numeral_value (a @ CHR ''.'' # b) =
    of_int (digits_value a) + of_int (digits_value b) / 10 ^ length b"
proof -
  have "takeWhile (\<lambda>c. c \<noteq> CHR ''.'') (a @ CHR ''.'' # b) = a"
    using assms by (induction a) auto
  moreover have "dropWhile (\<lambda>c. c \<noteq> CHR ''.'') (a @ CHR ''.'' # b) = CHR ''.'' # b"
    using assms by (induction a) auto
  ultimately show ?thesis by (simp add: numeral_value_def)
qed

lemma numeral_value_decimal:
  assumes "0 \<le> x"
  shows "numeral_value (decimal f x) = of_int \<lfloor>x * 10 ^ f + 1 / 2\<rfloor> / 10 ^ f"
proof -
  define r where "r = \<lfloor>x * 10 ^ f + 1 / 2\<rfloor>"
  have r: "0 \<le> r" using assms by (simp add: r_def)
  then have d: "0 \<le> r div 10 ^ f" by (simp add: pos_imp_zdiv_nonneg_iff)
  have "numeral_value (decimal f x) =
      of_int (r div 10 ^ f) + of_int (r mod 10 ^ f) / 10 ^ f"
    using r d by (simp add: decimal_def r_def [symmetric] Let_def numeral_value_split no_dot_digits
        digits_value_digits digits_value_frac length_frac_digits)
  also have "\<dots> = (of_int (r div 10 ^ f) * 10 ^ f + of_int (r mod 10 ^ f)) / 10 ^ f"
    by (simp add: add_divide_distrib)
  also have "(of_int (r div 10 ^ f) :: rat) * 10 ^ f + of_int (r mod 10 ^ f) = of_int r"
  proof -
    have "r div 10 ^ f * 10 ^ f + r mod 10 ^ f = r" by (rule div_mult_mod_eq)
    from arg_cong [OF this, of "of_int :: int \<Rightarrow> rat"] show ?thesis by simp
  qed
  finally show ?thesis by (simp add: r_def)
qed


lemma den_plain: "x < 10 ^ 3 \<Longrightarrow> denoted (Some (Fin x)) = Fin (of_int \<lfloor>x + 1 / 2\<rfloor>)"
  by (simp add: denoted_def or_num_Fin)

lemma den_K:
  "10 ^ 3 \<le> x \<Longrightarrow> x < 10 ^ 6 \<Longrightarrow> denoted (Some (Fin x)) = scaled 1 (10 ^ 3) (fl (x / 10 ^ 3))"
  by (simp add: denoted_def or_num_Fin del: scaled.simps)

lemma den_M:
  "10 ^ 6 \<le> x \<Longrightarrow> x < 10 ^ 9 \<Longrightarrow> denoted (Some (Fin x)) = scaled 2 (10 ^ 6) (fl (x / 10 ^ 6))"
  by (simp add: denoted_def or_num_Fin del: scaled.simps)

lemma den_B:
  "10 ^ 9 \<le> x \<Longrightarrow> denoted (Some (Fin x)) = scaled 2 (10 ^ 9) (fl (x / 10 ^ 9))"
  by (simp add: denoted_def or_num_Fin del: scaled.simps)

lemma floor_half_mono: "(a::rat) \<le> b \<Longrightarrow> \<lfloor>a * p + 1 / 2\<rfloor> \<le> \<lfloor>b * p + 1 / 2\<rfloor>" if "0 \<le> p"
  using that by (intro floor_mono) (simp add: mult_right_mono)

lemma floor_half_int: "\<lfloor>(of_int n :: rat) + 1 / 2\<rfloor> = n"
  by (simp add: floor_unique)

lemma scaled_mono:
  assumes "num_le a b" "0 < u"
  shows "num_le (scaled f u a) (scaled f u b)"
proof (cases a; cases b)
  fix q1 q2 assume ab: "a = Fin q1" "b = Fin q2"
  then have le: "q1 \<le> q2" using assms by simp
  have p: "(0::rat) < 10 ^ f" by simp
  consider "q2 < 10 ^ 21" | "q1 < 10 ^ 21" "10 ^ 21 \<le> q2" | "10 ^ 21 \<le> q1" using le by linarith
  then show ?thesis
  proof cases
    case 1
    then have q1: "q1 < 10 ^ 21" using le by simp
    have "\<lfloor>q1 * 10 ^ f + 1 / 2\<rfloor> \<le> \<lfloor>q2 * 10 ^ f + 1 / 2\<rfloor>" using le by (intro floor_half_mono) simp
    then have "(of_int \<lfloor>q1 * 10 ^ f + 1 / 2\<rfloor> :: rat) \<le> of_int \<lfloor>q2 * 10 ^ f + 1 / 2\<rfloor>"
      by (simp only: of_int_le_iff)
    then have "(of_int \<lfloor>q1 * 10 ^ f + 1 / 2\<rfloor> :: rat) / 10 ^ f * u
        \<le> of_int \<lfloor>q2 * 10 ^ f + 1 / 2\<rfloor> / 10 ^ f * u"
      using p assms(2) by (intro mult_right_mono divide_right_mono) simp_all
    then show ?thesis using ab 1 q1 by simp
  next
    case 2
    have "q1 * 10 ^ f + 1 / 2 < of_int (10 ^ 21 * 10 ^ f) + 1"
      using 2(1) p by (simp add: mult_strict_right_mono add_strict_mono)
    then have "\<lfloor>q1 * 10 ^ f + 1 / 2\<rfloor> < 10 ^ 21 * 10 ^ f + 1"
      by (simp only: floor_less_iff of_int_add of_int_1)
    then have "\<lfloor>q1 * 10 ^ f + 1 / 2\<rfloor> \<le> 10 ^ 21 * 10 ^ f" by simp
    then have "(of_int \<lfloor>q1 * 10 ^ f + 1 / 2\<rfloor> :: rat) \<le> of_int (10 ^ 21 * 10 ^ f)"
      by (simp only: of_int_le_iff)
    then have "(of_int \<lfloor>q1 * 10 ^ f + 1 / 2\<rfloor> :: rat) / 10 ^ f \<le> 10 ^ 21"
      using p by (simp add: divide_le_eq)
    also have "\<dots> \<le> q2" using 2(2) .
    finally have "(of_int \<lfloor>q1 * 10 ^ f + 1 / 2\<rfloor> :: rat) / 10 ^ f * u \<le> q2 * u"
      using assms(2) by (intro mult_right_mono) simp_all
    then show ?thesis using ab 2 by simp
  next
    case 3
    then have "10 ^ 21 \<le> q2" using le by simp
    moreover have "q1 * u \<le> q2 * u" using le assms(2) by (intro mult_right_mono) simp_all
    ultimately show ?thesis using ab 3 by simp
  qed
qed (use assms in auto)

lemma scaled_int:
  assumes "n < 10 ^ 21"
  shows "scaled f u (Fin (of_int n)) = Fin (of_int n * u)"
proof -
  have "(of_int n :: rat) * 10 ^ f + 1 / 2 = of_int (n * 10 ^ f) + 1 / 2" by simp
  then have "\<lfloor>(of_int n :: rat) * 10 ^ f + 1 / 2\<rfloor> = n * 10 ^ f" by (simp only: floor_half_int)
  moreover have "(of_int n :: rat) < of_int (10 ^ 21)" using assms by (simp only: of_int_less_iff)
  then have "(of_int n :: rat) < 10 ^ 21" by simp
  ultimately show ?thesis by simp
qed

lemma scaled_1: "scaled f u (Fin 1) = Fin u"
  using scaled_int [of 1 f u] by simp

lemma scaled_1000: "scaled f u (Fin 1000) = Fin (1000 * u)"
  using scaled_int [of 1000 f u] by simp

lemma scaled_range:
  assumes "num_le (Fin 1) a" "num_le a (Fin 1000)" "0 < u"
  shows "num_le (Fin u) (scaled f u a) \<and> num_le (scaled f u a) (Fin (1000 * u))"
  using scaled_mono [OF assms(1,3), of f] scaled_mono [OF assms(2,3), of f]
  by (simp add: scaled_1 scaled_1000 del: scaled.simps)

lemma fl_quot_range:
  assumes "c \<le> x" "x \<le> 1000 * c" "0 < c"
  shows "num_le (Fin 1) (fl (x / c)) \<and> num_le (fl (x / c)) (Fin 1000)"
proof -
  have "1 \<le> x / c" "x / c \<le> 1000" using assms by (simp_all add: divide_le_eq le_divide_eq)
  then show ?thesis using fl_mono [of 1 "x / c"] fl_mono [of "x / c" 1000] by (simp add: fl_1 fl_1000)
qed

lemma range_plain:
  assumes "0 \<le> x" "x < 10 ^ 3"
  shows "num_le (Fin 0) (denoted (Some (Fin x))) \<and> num_le (denoted (Some (Fin x))) (Fin (10 ^ 3))"
proof -
  have "x + 1 / 2 < of_int 1001" using assms by simp
  then have "\<lfloor>x + 1 / 2\<rfloor> < 1001" by (simp only: floor_less_iff)
  then have "(of_int \<lfloor>x + 1 / 2\<rfloor> :: rat) \<le> 1000" by simp
  moreover have "0 \<le> \<lfloor>x + 1 / 2\<rfloor>" using assms by simp
  ultimately show ?thesis using assms by (simp add: den_plain)
qed

lemma range_K:
  assumes "10 ^ 3 \<le> x" "x < 10 ^ 6"
  shows "num_le (Fin (10 ^ 3)) (denoted (Some (Fin x))) \<and> num_le (denoted (Some (Fin x))) (Fin (10 ^ 6))"
proof -
  have "num_le (Fin 1) (fl (x / 10 ^ 3)) \<and> num_le (fl (x / 10 ^ 3)) (Fin 1000)"
    using assms by (intro fl_quot_range) simp_all
  then have "num_le (Fin (10 ^ 3)) (scaled 1 (10 ^ 3) (fl (x / 10 ^ 3)))
      \<and> num_le (scaled 1 (10 ^ 3) (fl (x / 10 ^ 3))) (Fin (1000 * 10 ^ 3))"
    by (intro scaled_range) simp_all
  then show ?thesis using assms by (simp add: den_K del: scaled.simps)
qed

lemma range_M:
  assumes "10 ^ 6 \<le> x" "x < 10 ^ 9"
  shows "num_le (Fin (10 ^ 6)) (denoted (Some (Fin x))) \<and> num_le (denoted (Some (Fin x))) (Fin (10 ^ 9))"
proof -
  have "num_le (Fin 1) (fl (x / 10 ^ 6)) \<and> num_le (fl (x / 10 ^ 6)) (Fin 1000)"
    using assms by (intro fl_quot_range) simp_all
  then have "num_le (Fin (10 ^ 6)) (scaled 2 (10 ^ 6) (fl (x / 10 ^ 6)))
      \<and> num_le (scaled 2 (10 ^ 6) (fl (x / 10 ^ 6))) (Fin (1000 * 10 ^ 6))"
    by (intro scaled_range) simp_all
  then show ?thesis using assms by (simp add: den_M del: scaled.simps)
qed

lemma range_B:
  assumes "10 ^ 9 \<le> x"
  shows "num_le (Fin (10 ^ 9)) (denoted (Some (Fin x)))"
proof -
  have "1 \<le> x / 10 ^ 9" using assms by simp
  then have "num_le (Fin 1) (fl (x / 10 ^ 9))" using fl_mono [of 1 "x / 10 ^ 9"] by (simp add: fl_1)
  then have "num_le (scaled 2 (10 ^ 9) (Fin 1)) (scaled 2 (10 ^ 9) (fl (x / 10 ^ 9)))"
    by (intro scaled_mono) simp_all
  then show ?thesis using assms by (simp add: den_B scaled_1 del: scaled.simps)
qed

lemma same_bucket:
  assumes "x \<le> y" "0 < c" "0 < u"
  shows "num_le (scaled f u (fl (x / c))) (scaled f u (fl (y / c)))"
proof -
  have "x / c \<le> y / c" using assms by (simp add: divide_right_mono)
  then show ?thesis using assms(3) by (intro scaled_mono fl_mono)
qed

lemma denoted_mono:
  assumes "0 \<le> x" "x \<le> y"
  shows "num_le (denoted (Some (Fin x))) (denoted (Some (Fin y)))"
proof -
  consider (p) "y < 10 ^ 3" | (k) "10 ^ 3 \<le> y" "y < 10 ^ 6" | (m) "10 ^ 6 \<le> y" "y < 10 ^ 9"
    | (b) "10 ^ 9 \<le> y" by linarith
  then show ?thesis
  proof cases
    case p
    then have x: "x < 10 ^ 3" using assms by simp
    have "\<lfloor>x + 1 / 2\<rfloor> \<le> \<lfloor>y + 1 / 2\<rfloor>" using assms by (intro floor_mono) simp
    then show ?thesis using p x by (simp add: den_plain)
  next
    case k
    show ?thesis
    proof (cases "x < 10 ^ 3")
      case True
      then show ?thesis using range_plain [OF assms(1) True] range_K [OF k] num_le_trans by blast
    next
      case False
      then have x: "10 ^ 3 \<le> x" "x < 10 ^ 6" using assms k by simp_all
      show ?thesis using same_bucket [OF assms(2), of "10 ^ 3" "10 ^ 3" 1] x k
        by (simp add: den_K del: scaled.simps)
    qed
  next
    case m
    consider "x < 10 ^ 3" | "10 ^ 3 \<le> x" "x < 10 ^ 6" | "10 ^ 6 \<le> x" by linarith
    then show ?thesis
    proof cases
      case 1
      have "num_le (Fin (10 ^ 3)) (Fin (10 ^ 6))" by simp
      then show ?thesis using range_plain [OF assms(1) 1] range_M [OF m] num_le_trans by blast
    next
      case 2
      then show ?thesis using range_K [OF 2] range_M [OF m] num_le_trans by blast
    next
      case 3
      then have x: "10 ^ 6 \<le> x" "x < 10 ^ 9" using assms m by simp_all
      show ?thesis using same_bucket [OF assms(2), of "10 ^ 6" "10 ^ 6" 2] x m
        by (simp add: den_M del: scaled.simps)
    qed
  next
    case b
    consider "x < 10 ^ 3" | "10 ^ 3 \<le> x" "x < 10 ^ 6" | "10 ^ 6 \<le> x" "x < 10 ^ 9" | "10 ^ 9 \<le> x"
      by linarith
    then show ?thesis
    proof cases
      case 1
      have "num_le (Fin (10 ^ 3)) (Fin (10 ^ 9))" by simp
      then show ?thesis using range_plain [OF assms(1) 1] range_B [OF b] num_le_trans by blast
    next
      case 2
      have "num_le (Fin (10 ^ 6)) (Fin (10 ^ 9))" by simp
      then show ?thesis using range_K [OF 2] range_B [OF b] num_le_trans by blast
    next
      case 3
      then show ?thesis using range_M [OF 3] range_B [OF b] num_le_trans by blast
    next
      case 4
      show ?thesis using same_bucket [OF assms(2), of "10 ^ 9" "10 ^ 9" 2] 4 b
        by (simp add: den_B del: scaled.simps)
    qed
  qed
qed


lemma scaled_decimal:
  assumes "0 \<le> q" "q < 10 ^ 21"
  shows "scaled f u (Fin q) = Fin (numeral_value (decimal f q) * u)"
  using assms by (simp add: numeral_value_decimal)

lemma den_PInf: "denoted (Some PInf) = PInf"
  by (simp add: denoted_def or_num_def truthy_def)

lemma num_le_PInf: "num_le a b \<Longrightarrow> num_le b PInf"
  by (cases a; cases b) auto

text \<open>
  C9 (amended). On the numbers from 0 on, \<^verbatim>\<open>fmtCurrencyShort\<close> is monotonic: for
  \<open>0 \<le> n1 \<le> n2\<close> the number denoted by the text for \<open>n1\<close> is at most the one denoted
  by the text for \<open>n2\<close> (and at most the one for \<open>Infinity\<close>). Every text is one of four
  forms, chosen exactly at \<open>1e3\<close>, \<open>1e6\<close> and \<open>1e9\<close>: the locale's text of the rounded
  integer below \<open>1e3\<close>, and a numeral before K, M or B from there on, whose value times
  the unit of the suffix is the denoted number (for the quotients from \<open>1e21\<close> on, which
  need \<open>n > 1e29\<close>, the text before the B is the one \<^verbatim>\<open>toFixed\<close> gives).
\<close>

theorem C9_monotone:
  assumes "0 \<le> x" and "x \<le> y"
  shows "num_le (denoted (Some (Fin x))) (denoted (Some (Fin y)))
    \<and> num_le (denoted (Some (Fin y))) (denoted (Some PInf))
    \<and> (x < 10 ^ 3 \<longrightarrow>
         fmtCurrencyShort loc (Some (Fin x)) = ''$'' @ loc False (Fin (of_int \<lfloor>x + 1 / 2\<rfloor>))
         \<and> denoted (Some (Fin x)) = Fin (of_int \<lfloor>x + 1 / 2\<rfloor>))
    \<and> (10 ^ 3 \<le> x \<and> x < 10 ^ 6 \<longrightarrow>
         (\<exists>d. fmtCurrencyShort loc (Some (Fin x)) = ''$'' @ d @ ''K''
              \<and> denoted (Some (Fin x)) = Fin (numeral_value d * 10 ^ 3)))
    \<and> (10 ^ 6 \<le> x \<and> x < 10 ^ 9 \<longrightarrow>
         (\<exists>d. fmtCurrencyShort loc (Some (Fin x)) = ''$'' @ d @ ''M''
              \<and> denoted (Some (Fin x)) = Fin (numeral_value d * 10 ^ 6)))
    \<and> (10 ^ 9 \<le> x \<and> x \<le> 10 ^ 29 \<longrightarrow>
         (\<exists>d. fmtCurrencyShort loc (Some (Fin x)) = ''$'' @ d @ ''B''
              \<and> denoted (Some (Fin x)) = Fin (numeral_value d * 10 ^ 9)))
    \<and> (10 ^ 29 < x \<longrightarrow>
         fmtCurrencyShort loc (Some (Fin x)) = ''$'' @ toFixed 2 (fl (x / 10 ^ 9)) @ ''B''
         \<and> denoted (Some (Fin x)) = scaled 2 (10 ^ 9) (fl (x / 10 ^ 9)))"
proof -
  have 1: "num_le (denoted (Some (Fin x))) (denoted (Some (Fin y)))"
    using assms by (rule denoted_mono)
  then have 2: "num_le (denoted (Some (Fin y))) (denoted (Some PInf))"
    unfolding den_PInf by (rule num_le_PInf)
  have 3: "fmtCurrencyShort loc (Some (Fin x)) = ''$'' @ loc False (Fin (of_int \<lfloor>x + 1 / 2\<rfloor>))
      \<and> denoted (Some (Fin x)) = Fin (of_int \<lfloor>x + 1 / 2\<rfloor>)" if "x < 10 ^ 3"
    using that assms(1) by (simp add: fmt_plain den_plain)
  have 4: "\<exists>d. fmtCurrencyShort loc (Some (Fin x)) = ''$'' @ d @ ''K''
      \<and> denoted (Some (Fin x)) = Fin (numeral_value d * 10 ^ 3)" if h: "10 ^ 3 \<le> x \<and> x < 10 ^ 6"
  proof -
    obtain q where q: "fl (x / 10 ^ 3) = Fin q" "1 \<le> q" "q \<le> 1000" using quotient_K h by blast
    have "toFixed 1 (Fin q) = decimal 1 q"
      by (rule toFixed_decimal) (use q in simp_all)
    moreover have "scaled 1 (10 ^ 3) (Fin q) = Fin (numeral_value (decimal 1 q) * 10 ^ 3)"
      by (rule scaled_decimal) (use q in simp_all)
    ultimately have "toFixed 1 (Fin q) = decimal 1 q"
      "scaled 1 (10 ^ 3) (Fin q) = Fin (numeral_value (decimal 1 q) * 10 ^ 3)" by blast+
    then show ?thesis using h q
      by (intro exI [of _ "decimal 1 q"]) (simp add: fmt_K den_K del: toFixed.simps scaled.simps)
  qed
  have 5: "\<exists>d. fmtCurrencyShort loc (Some (Fin x)) = ''$'' @ d @ ''M''
      \<and> denoted (Some (Fin x)) = Fin (numeral_value d * 10 ^ 6)" if h: "10 ^ 6 \<le> x \<and> x < 10 ^ 9"
  proof -
    obtain q where q: "fl (x / 10 ^ 6) = Fin q" "1 \<le> q" "q \<le> 1000" using quotient_M h by blast
    have "toFixed 2 (Fin q) = decimal 2 q"
      by (rule toFixed_decimal) (use q in simp_all)
    moreover have "scaled 2 (10 ^ 6) (Fin q) = Fin (numeral_value (decimal 2 q) * 10 ^ 6)"
      by (rule scaled_decimal) (use q in simp_all)
    ultimately have "toFixed 2 (Fin q) = decimal 2 q"
      "scaled 2 (10 ^ 6) (Fin q) = Fin (numeral_value (decimal 2 q) * 10 ^ 6)" by blast+
    then show ?thesis using h q
      by (intro exI [of _ "decimal 2 q"]) (simp add: fmt_M den_M del: toFixed.simps scaled.simps)
  qed
  have 6: "\<exists>d. fmtCurrencyShort loc (Some (Fin x)) = ''$'' @ d @ ''B''
      \<and> denoted (Some (Fin x)) = Fin (numeral_value d * 10 ^ 9)" if h: "10 ^ 9 \<le> x \<and> x \<le> 10 ^ 29"
  proof -
    obtain q where q: "fl (x / 10 ^ 9) = Fin q" "1 \<le> q" "q \<le> 10 ^ 20" using quotient_B h by blast
    have "toFixed 2 (Fin q) = decimal 2 q"
      by (rule toFixed_decimal) (use q in simp_all)
    moreover have "scaled 2 (10 ^ 9) (Fin q) = Fin (numeral_value (decimal 2 q) * 10 ^ 9)"
      by (rule scaled_decimal) (use q in simp_all)
    ultimately have "toFixed 2 (Fin q) = decimal 2 q"
      "scaled 2 (10 ^ 9) (Fin q) = Fin (numeral_value (decimal 2 q) * 10 ^ 9)" by blast+
    then show ?thesis using h q
      by (intro exI [of _ "decimal 2 q"]) (simp add: fmt_B den_B del: toFixed.simps scaled.simps)
  qed
  have 7: "fmtCurrencyShort loc (Some (Fin x)) = ''$'' @ toFixed 2 (fl (x / 10 ^ 9)) @ ''B''
      \<and> denoted (Some (Fin x)) = scaled 2 (10 ^ 9) (fl (x / 10 ^ 9))" if "10 ^ 29 < x"
  proof -
    have "(10::rat) ^ 9 \<le> x" using that by simp
    then show ?thesis by (simp add: fmt_B den_B del: toFixed.simps scaled.simps)
  qed
  from 1 2 3 4 5 6 7 show ?thesis by blast
qed

theorem C9_monotone_witness:
  "(0::rat) \<le> 999999 \<and> (999999::rat) \<le> 10 ^ 6
   \<and> num_le (denoted (Some (Fin 999999))) (denoted (Some (Fin (10 ^ 6))))
   \<and> fmtCurrencyShort en_US (Some (Fin 999999)) = ''$1000.0K''
   \<and> denoted (Some (Fin 999999)) = Fin (10 ^ 6)
   \<and> fmtCurrencyShort en_US (Some (Fin (10 ^ 6))) = ''$1.00M''
   \<and> denoted (Some (Fin (10 ^ 6))) = Fin (10 ^ 6)"
proof -
  have h: "(0::rat) \<le> 999999" "(999999::rat) \<le> 10 ^ 6" by simp_all
  have e: "fmtCurrencyShort en_US (Some (Fin 999999)) = ''$1000.0K''"
    "denoted (Some (Fin 999999)) = Fin (10 ^ 6)"
    "fmtCurrencyShort en_US (Some (Fin (10 ^ 6))) = ''$1.00M''"
    "denoted (Some (Fin (10 ^ 6))) = Fin (10 ^ 6)" by code_simp+
  from C9_monotone [OF h, of en_US]
  have "num_le (denoted (Some (Fin 999999))) (denoted (Some (Fin (10 ^ 6))))" by blast
  with h e show ?thesis by blast
qed

text \<open>
  The magnitude is not what decides: \<open>5\<close> has a smaller magnitude than \<open>-10\<close> and a
  text of larger value, and \<open>-2000\<close> is written without a suffix.
\<close>

theorem C9_monotone_counterexample:
  "\<bar>5 :: rat\<bar> \<le> \<bar>- 10\<bar>
   \<and> fmtCurrencyShort en_US (Some (Fin 5)) = ''$5''
   \<and> fmtCurrencyShort en_US (Some (Fin (- 10))) = ''$-10''
   \<and> denoted (Some (Fin 5)) = Fin 5
   \<and> denoted (Some (Fin (- 10))) = Fin (- 10)
   \<and> \<not> num_le (denoted (Some (Fin 5))) (denoted (Some (Fin (- 10))))
   \<and> fmtCurrencyShort en_US (Some (Fin (- 2000))) = ''$-2,000''"
  by code_simp

end
